theory Spec2Isabelle
  imports Main "HOL-Library.Word"
begin

unbundle bit_operations_syntax

section \<open>Account codec (chratos/lib/numbers.cpp)\<close>

type_synonym uint8_t = "8 word"
type_synonym uint64_t = "64 word"
type_synonym uint128_t = "128 word"
type_synonym uint256_t = "256 word"
type_synonym uint512_t = "512 word"

definition account_lookup :: string where
  "account_lookup = ''13456789abcdefghijkmnopqrstuwxyz''"

definition account_reverse :: string where
  "account_reverse =
     ''~0~1234567~~~~~~~~~~~~~~~~~~~~~~~~~~~~~~~~~~~~~~~89:;<=>?@AB~CDEFGHIJK~LMNO~~~~~''"

definition account_encode :: "uint8_t \<Rightarrow> char" where
  "account_encode v = account_lookup ! unat v"

definition account_decode :: "char \<Rightarrow> uint8_t" where
  "account_decode v = of_char (account_reverse ! (of_char v - 0x30)) - 0x30"

primrec bytes_of :: "nat \<Rightarrow> uint256_t \<Rightarrow> uint8_t list" where
  "bytes_of 0 number_l = []"
| "bytes_of (Suc k) number_l = bytes_of k (drop_bit 8 number_l) @ [ucast (number_l AND 0xff)]"

definition bytes :: "uint256_t \<Rightarrow> uint8_t list" where
  "bytes a = bytes_of 32 a"

primrec encode_loop :: "nat \<Rightarrow> uint512_t \<Rightarrow> string" where
  "encode_loop 0 number_l = []"
| "encode_loop (Suc k) number_l =
     account_encode (ucast (number_l AND 0x1f)) # encode_loop k (drop_bit 5 number_l)"

definition encode_account :: "(uint8_t list \<Rightarrow> 40 word) \<Rightarrow> uint256_t \<Rightarrow> string" where
  "encode_account blake2b_5 a =
     (let check = (ucast (blake2b_5 (bytes a)) :: uint64_t);
          number_l = push_bit 40 (ucast a :: uint512_t) OR ucast check
      in rev (encode_loop 60 number_l @ ''_rhc''))"

fun decode_loop :: "string \<Rightarrow> uint512_t \<Rightarrow> bool \<times> uint512_t" where
  "decode_loop [] number_l = (False, number_l)"
| "decode_loop (c # cs) number_l =
     (let character = (of_char c :: uint8_t) in
      if character < 0x30 \<or> character \<ge> 0x80 then (True, number_l)
      else let byte = account_decode c in
        if byte = of_char CHR ''~'' then (True, number_l)
        else decode_loop cs (push_bit 5 number_l + ucast byte))"

definition decode_account ::
  "(uint8_t list \<Rightarrow> 40 word) \<Rightarrow> string \<Rightarrow> uint256_t \<Rightarrow> bool \<times> uint256_t" where
  "decode_account blake2b_5 source_a this =
     (if length source_a < 5 then (True, this)
      else
        let chr_prefix = (source_a ! 0 = CHR ''c'' \<and> source_a ! 1 = CHR ''h'' \<and> source_a ! 2 = CHR ''r''
                          \<and> (source_a ! 3 = CHR ''_'' \<or> source_a ! 3 = CHR ''-''));
            nano_prefix = (source_a ! 0 = CHR ''n'' \<and> source_a ! 1 = CHR ''a'' \<and> source_a ! 2 = CHR ''n''
                          \<and> source_a ! 3 = CHR ''o'' \<and> (source_a ! 4 = CHR ''_'' \<or> source_a ! 4 = CHR ''-''))
        in
        if (chr_prefix \<and> length source_a \<noteq> 64) \<or> (nano_prefix \<and> length source_a \<noteq> 65) then (True, this)
        else if chr_prefix \<or> nano_prefix then
          (let i = drop (if chr_prefix then 4 else 5) source_a in
           if i ! 0 = CHR ''1'' \<or> i ! 0 = CHR ''3'' then
             (case decode_loop i 0 of
                (True, number_l) \<Rightarrow> (True, this)
              | (False, number_l) \<Rightarrow>
                  (let this' = (ucast (drop_bit 40 number_l) :: uint256_t);
                       check = (ucast (number_l AND 0xffffffffff) :: uint64_t);
                       validation = (ucast (blake2b_5 (bytes this')) :: uint64_t)
                   in (check \<noteq> validation, this')))
           else (True, this))
        else (True, this))"

text \<open>
  The value a string of base-32 digits denotes, most significant digit first, each digit
  being the position of its symbol in \<open>account_lookup\<close>. It is the reading of
  an account string that the claims about the checksum refer to.
\<close>

fun index_of :: "'a \<Rightarrow> 'a list \<Rightarrow> nat" where
  "index_of c [] = 0"
| "index_of c (x # xs) = (if x = c then 0 else Suc (index_of c xs))"

definition digit_value :: "char \<Rightarrow> nat" where
  "digit_value c = index_of c account_lookup"

definition base32_value :: "string \<Rightarrow> nat" where
  "base32_value ds = foldl (\<lambda>n c. 32 * n + digit_value c) 0 ds"


section \<open>Elections and the vote processor (chratos/node/node.cpp)\<close>

type_synonym account = uint256_t
type_synonym block_hash = uint256_t

text \<open>
  A \<open>steady_clock::time_point\<close>, as its count of nanoseconds; \<open>std::chrono::seconds (c)\<close>
  is \<open>c * 1000000000\<close> of them.
\<close>

type_synonym time_point = int

text \<open>What the node reads of a block: \<open>hash ()\<close>, \<open>root ()\<close> and \<open>block_work ()\<close>.\<close>

record block =
  hash :: block_hash
  root :: uint256_t
  block_work :: uint64_t

record vote_info =
  vi_time :: time_point
  vi_sequence :: uint64_t
  vi_hash :: block_hash

text \<open>
  The collaborators an election reads through \<open>node\<close>: the online representatives'
  stake, the configured minimum and quorum, the ledger weights, the fraction of the gap
  cache, the network the binary was built for, and the clock.
\<close>

datatype chratos_networks = chratos_test_network | chratos_beta_network | chratos_live_network

record node =
  online_stake_total :: uint128_t
  online_weight_minimum :: uint128_t
  online_weight_quorum :: "32 word"
  ledger_weight :: "account \<Rightarrow> uint128_t"
  bootstrap_fraction_numerator :: "32 word"
  chratos_network :: chratos_networks
  now :: time_point

text \<open>
  A vote names its blocks either in full or by hash (\<open>which ()\<close> is nonzero for a hash).
\<close>

datatype vote_block = Vote_block block | Vote_hash block_hash

record vote =
  account :: account
  sequence :: uint64_t
  vote_blocks :: "vote_block list"

text \<open>
  What a call hands to other parts of the node: a block forced into the block processor, the
  confirmation queued by \<open>confirm_once\<close>, a vote republished, the vote observers
  notified, a \<open>confirm_ack\<close> sent back.
\<close>

datatype election_event =
    Force block
  | Process_confirmed block
  | Republish_vote vote
  | Notify_vote vote
  | Confirm_send vote

text \<open>
  Modelled from the spec: \<open>tally_t\<close> is declared in node.hpp, which is not among the
  sources; the specification has the tally yield "a sorted multimap (weight-descending to
  candidate block)". Here it is the list of the entries in iteration order.
\<close>

type_synonym tally_t = "(uint128_t \<times> block) list"

record election =
  election_root :: uint256_t
  status_winner :: block
  status_tally :: uint128_t
  confirmed :: bool
  aborted :: bool
  last_votes :: "(account \<times> vote_info) list"
  blocks :: "(block_hash \<times> block) list"
  last_tally :: "(block_hash \<times> uint128_t) list"

record election_vote_result =
  replay :: bool
  processed :: bool

definition not_an_account :: account where
  "not_an_account = 0"

definition online_stake :: "node \<Rightarrow> uint128_t" where
  "online_stake n = max (online_stake_total n) (online_weight_minimum n)"

definition delta :: "node \<Rightarrow> uint128_t" where
  "delta n = (online_stake n div 100) * ucast (online_weight_quorum n)"

text \<open>\<open>m[k] = v\<close> on an unordered map kept as an association list.\<close>

fun assign :: "'k \<Rightarrow> 'v \<Rightarrow> ('k \<times> 'v) list \<Rightarrow> ('k \<times> 'v) list" where
  "assign k v [] = [(k, v)]"
| "assign k v (p # ps) = (if fst p = k then (k, v) # ps else p # assign k v ps)"

definition election_init :: "node \<Rightarrow> block \<Rightarrow> election" where
  "election_init n block_a =
     \<lparr> election_root = root block_a, status_winner = block_a, status_tally = 0,
       confirmed = False, aborted = False,
       last_votes = [(not_an_account, \<lparr> vi_time = now n, vi_sequence = 0, vi_hash = hash block_a \<rparr>)],
       blocks = [(hash block_a, block_a)],
       last_tally = [] \<rparr>"

definition confirm_once :: "election \<Rightarrow> election \<times> election_event list" where
  "confirm_once e =
     (if \<not> confirmed e then (e\<lparr> confirmed := True \<rparr>, [Process_confirmed (status_winner e)])
      else (e, []))"

text \<open>
  \<open>have_quorum\<close> dereferences \<open>tally_a.begin ()\<close>; its only caller asserts that the
  tally is not empty first, and the empty case below is not reached through it.
\<close>

definition have_quorum :: "node \<Rightarrow> tally_t \<Rightarrow> bool" where
  "have_quorum n tally_a =
     (case tally_a of
        [] \<Rightarrow> False
      | i # rest \<Rightarrow>
          (let first = fst i;
               second = (case rest of [] \<Rightarrow> 0 | j # _ \<Rightarrow> fst j);
               delta_l = delta n
           in first > second + delta_l))"

text \<open>
  Modelled from the spec: \<open>insert\<close> on the weight-descending multimap \<open>tally_t\<close>, which
  puts an entry after the entries that are not smaller.
\<close>

fun tally_insert :: "uint128_t \<times> block \<Rightarrow> tally_t \<Rightarrow> tally_t" where
  "tally_insert x [] = [x]"
| "tally_insert x (y # ys) = (if fst x \<le> fst y then y # tally_insert x ys else x # y # ys)"

definition block_weights_add ::
  "block_hash \<Rightarrow> uint128_t \<Rightarrow> (block_hash \<times> uint128_t) list \<Rightarrow> (block_hash \<times> uint128_t) list" where
  "block_weights_add h w block_weights =
     assign h ((case map_of block_weights h of None \<Rightarrow> 0 | Some x \<Rightarrow> x) + w) block_weights"

text \<open>\<open>election::tally\<close>: the new \<open>last_tally\<close> and the tally returned.\<close>

definition tally :: "node \<Rightarrow> election \<Rightarrow> (block_hash \<times> uint128_t) list \<times> tally_t" where
  "tally n e =
     (let block_weights =
            fold (\<lambda>vote_info bw. block_weights_add (vi_hash (snd vote_info)) (ledger_weight n (fst vote_info)) bw)
              (last_votes e) [];
          result =
            fold (\<lambda>item r. case map_of (blocks e) (fst item) of
                               None \<Rightarrow> r
                             | Some b \<Rightarrow> tally_insert (snd item, b) r)
              block_weights []
      in (block_weights, result))"

text \<open>
  \<open>election::confirm_if_quorum\<close>; \<open>None\<close> is the failure of
  \<open>assert (tally_l.size () > 0)\<close>.
\<close>

definition confirm_if_quorum :: "node \<Rightarrow> election \<Rightarrow> (election \<times> election_event list) option" where
  "confirm_if_quorum n e =
     (let (block_weights, tally_l) = tally n e;
          e1 = e\<lparr> last_tally := block_weights \<rparr>
      in case tally_l of
           [] \<Rightarrow> None
         | winner # _ \<Rightarrow>
             (let block_l = snd winner;
                  e2 = e1\<lparr> status_tally := fst winner \<rparr>;
                  sum = fold (\<lambda>i s. s + fst i) tally_l 0;
                  (e3, forced) =
                    (if sum \<ge> online_weight_minimum n \<and> \<not> (block_l = status_winner e2)
                     then (e2\<lparr> status_winner := block_l \<rparr>, [Force block_l])
                     else (e2, []))
              in if have_quorum n tally_l
                 then (let (e4, confirmations) = confirm_once e3 in Some (e4, forced @ confirmations))
                 else Some (e3, forced)))"

text \<open>
  \<open>election::vote\<close>. The source declares \<open>should_process\<close> twice: the inner one, inside
  the weight test, decides whether the vote is stored; the outer one, never assigned, is the
  \<open>processed\<close> field of the result.
\<close>

text \<open>
  The cooldown in seconds that \<open>election::vote\<close> picks from the representative's
  weight and the online stake.
\<close>

definition vote_cooldown :: "uint128_t \<Rightarrow> uint128_t \<Rightarrow> int" where
  "vote_cooldown weight supply =
     (if weight < supply div 100 then 15
      else if weight < supply div 20 then 5
      else 1)"

definition election_vote ::
  "node \<Rightarrow> election \<Rightarrow> account \<Rightarrow> uint64_t \<Rightarrow> block_hash
     \<Rightarrow> (election_vote_result \<times> election \<times> election_event list) option" where
  "election_vote n e rep sequence_a block_hash =
     (let supply = online_stake n;
          weight = ledger_weight n rep;
          should_process = False
      in if chratos_network n = chratos_test_network \<or> weight > supply div 1000 then
           (let cooldown = vote_cooldown weight supply;
                (should_process_inner, replay) =
                  (case map_of (last_votes e) rep of
                     None \<Rightarrow> (True, False)
                   | Some last_vote \<Rightarrow>
                       if vi_sequence last_vote < sequence_a
                          \<or> (vi_sequence last_vote = sequence_a \<and> vi_hash last_vote < block_hash)
                       then (vi_time last_vote \<le> now n - cooldown * 1000000000, False)
                       else (False, True))
            in if should_process_inner then
                 (let e1 = e\<lparr> last_votes := assign rep
                              \<lparr> vi_time = now n, vi_sequence = sequence_a, vi_hash = block_hash \<rparr>
                              (last_votes e) \<rparr>
                  in if \<not> confirmed e1 then
                       (case confirm_if_quorum n e1 of
                          None \<Rightarrow> None
                        | Some (e2, events) \<Rightarrow>
                            Some (\<lparr> replay = replay, processed = should_process \<rparr>, e2, events))
                     else Some (\<lparr> replay = replay, processed = should_process \<rparr>, e1, []))
               else Some (\<lparr> replay = replay, processed = should_process \<rparr>, e, []))
         else Some (\<lparr> replay = False, processed = should_process \<rparr>, e, []))"

text \<open>The order on (sequence, hash) pairs: by sequence first, then by hash.\<close>

definition vote_less :: "uint64_t \<times> block_hash \<Rightarrow> uint64_t \<times> block_hash \<Rightarrow> bool" where
  "vote_less a b = (fst a < fst b \<or> (fst a = fst b \<and> snd a < snd b))"

definition vote_le :: "uint64_t \<times> block_hash \<Rightarrow> uint64_t \<times> block_hash \<Rightarrow> bool" where
  "vote_le a b = (fst a < fst b \<or> (fst a = fst b \<and> snd a \<le> snd b))"

fun is_process_confirmed :: "election_event \<Rightarrow> bool" where
  "is_process_confirmed (Process_confirmed b) = True"
| "is_process_confirmed event = False"

text \<open>Votes offered to one election one after the other, each with the node as it is then.\<close>

fun election_votes ::
  "election \<Rightarrow> (node \<times> account \<times> uint64_t \<times> block_hash) list
     \<Rightarrow> (election \<times> election_event list) option" where
  "election_votes e [] = Some (e, [])"
| "election_votes e ((n, rep, sequence_a, block_hash) # rest) =
     (case election_vote n e rep sequence_a block_hash of
        None \<Rightarrow> None
      | Some (result, e1, events) \<Rightarrow>
          (case election_votes e1 rest of
             None \<Rightarrow> None
           | Some (e2, later) \<Rightarrow> Some (e2, events @ later)))"

text \<open>
  The active elections: \<open>roots\<close> and \<open>successors\<close> hold shared pointers to the
  same election objects, here addresses into \<open>elections\<close>.
\<close>

record conflict_info =
  ci_root :: uint256_t
  ci_election :: nat
  announcements :: nat

record active_transactions =
  roots :: "conflict_info list"
  successors :: "(block_hash \<times> nat) list"
  elections :: "nat \<rightharpoonup> election"

text \<open>
  One iteration of the loop of \<open>active_transactions::vote\<close>. \<open>None\<close> is a failed
  assertion inside the election, or an address with no election behind it, which a shared
  pointer excludes.
\<close>

definition active_vote_block ::
  "node \<Rightarrow> vote \<Rightarrow> vote_block \<Rightarrow> active_transactions
     \<Rightarrow> (election_vote_result \<times> active_transactions \<times> election_event list) option" where
  "active_vote_block n vote_a vote_block a =
     (let existing =
            (case vote_block of
               Vote_hash block_hash \<Rightarrow>
                 (case map_of (successors a) block_hash of
                    None \<Rightarrow> None
                  | Some p \<Rightarrow> Some (p, block_hash))
             | Vote_block block \<Rightarrow>
                 (case find (\<lambda>i. ci_root i = root block) (roots a) of
                    None \<Rightarrow> None
                  | Some i \<Rightarrow> Some (ci_election i, hash block)))
      in case existing of
           None \<Rightarrow> Some (\<lparr> replay = False, processed = False \<rparr>, a, [])
         | Some (p, block_hash) \<Rightarrow>
             (case elections a p of
                None \<Rightarrow> None
              | Some e \<Rightarrow>
                  (case election_vote n e (account vote_a) (sequence vote_a) block_hash of
                     None \<Rightarrow> None
                   | Some (result, e1, events) \<Rightarrow>
                       Some (result, a\<lparr> elections := (elections a)(p \<mapsto> e1) \<rparr>, events))))"

fun active_vote_loop ::
  "node \<Rightarrow> vote \<Rightarrow> vote_block list \<Rightarrow> bool \<Rightarrow> bool \<Rightarrow> active_transactions
     \<Rightarrow> (bool \<times> bool \<times> active_transactions \<times> election_event list) option" where
  "active_vote_loop n vote_a [] replay_l processed_l a = Some (replay_l, processed_l, a, [])"
| "active_vote_loop n vote_a (vote_block # rest) replay_l processed_l a =
     (case active_vote_block n vote_a vote_block a of
        None \<Rightarrow> None
      | Some (result, a1, events) \<Rightarrow>
          (case active_vote_loop n vote_a rest (replay_l \<or> replay result) (processed_l \<or> processed result) a1 of
             None \<Rightarrow> None
           | Some (replay_r, processed_r, a2, later) \<Rightarrow> Some (replay_r, processed_r, a2, events @ later)))"

definition active_vote ::
  "node \<Rightarrow> active_transactions \<Rightarrow> vote
     \<Rightarrow> (bool \<times> active_transactions \<times> election_event list) option" where
  "active_vote n a vote_a =
     (case active_vote_loop n vote_a (vote_blocks vote_a) False False a of
        None \<Rightarrow> None
      | Some (replay_l, processed_l, a1, events) \<Rightarrow>
          Some (replay_l, a1, events @ (if processed_l then [Republish_vote vote_a] else [])))"

datatype vote_code = Invalid | Replay | Vote

text \<open>
  \<open>vote_processor::vote_blocking\<close>. \<open>vote::validate\<close> (true when the signature does
  not verify) and \<open>block_store::vote_max\<close> live in files that are not among the sources
  and are parameters.
\<close>

definition vote_blocking ::
  "(vote \<Rightarrow> bool) \<Rightarrow> (vote \<Rightarrow> vote) \<Rightarrow> node \<Rightarrow> active_transactions \<Rightarrow> vote
     \<Rightarrow> (vote_code \<times> active_transactions \<times> election_event list) option" where
  "vote_blocking validate vote_max n a vote_a =
     (if \<not> validate vote_a then
        (let max_vote = vote_max vote_a
         in case active_vote n a vote_a of
              None \<Rightarrow> None
            | Some (replay_l, a1, events) \<Rightarrow>
                (let result = (if \<not> replay_l \<or> sequence max_vote > sequence vote_a then Vote else Replay);
                     notified = (if result = Vote then [Notify_vote vote_a] else []);
                     replied = (if sequence max_vote > sequence vote_a + 10000
                                then [Confirm_send max_vote] else [])
                 in Some (result, a1, events @ notified @ replied)))
      else Some (Invalid, a, []))"

text \<open>The result the specification gives for a vote, in its words.\<close>

definition specified_vote_code :: "bool \<Rightarrow> bool \<Rightarrow> bool \<Rightarrow> vote_code" where
  "specified_vote_code validation_fails supersedes_maximum accepted_by_an_election =
     (if validation_fails then Invalid
      else if \<not> supersedes_maximum then Replay
      else if accepted_by_an_election then Vote
      else Replay)"

text \<open>Concrete inputs on which the theorems below are exercised.\<close>

definition sample_block :: block where
  "sample_block = \<lparr> hash = 5, root = 9, block_work = 0 \<rparr>"

definition sample_node :: "chratos_networks \<Rightarrow> uint128_t \<Rightarrow> uint128_t \<Rightarrow> time_point \<Rightarrow> node" where
  "sample_node network stake w t =
     \<lparr> online_stake_total = stake, online_weight_minimum = 0, online_weight_quorum = 50,
       ledger_weight = (\<lambda>a. if a = 7 then w else 0), bootstrap_fraction_numerator = 3,
       chratos_network = network, now = t \<rparr>"

definition sample_election :: election where
  "sample_election =
     (election_init (sample_node chratos_test_network 150 60 0) sample_block)
       \<lparr> last_votes := [(0, \<lparr> vi_time = 0, vi_sequence = 0, vi_hash = 5 \<rparr>),
                        (7, \<lparr> vi_time = 0, vi_sequence = 1, vi_hash = 5 \<rparr>)] \<rparr>"

definition sample_vote :: "uint64_t \<Rightarrow> vote" where
  "sample_vote s = \<lparr> account = 7, sequence = s, vote_blocks = [Vote_hash 5] \<rparr>"

definition sample_validate :: "vote \<Rightarrow> bool" where
  "sample_validate v = (sequence v = 0)"

definition sample_vote_max :: "vote \<Rightarrow> vote" where
  "sample_vote_max v = v"

definition no_elections :: active_transactions where
  "no_elections = \<lparr> roots = [], successors = [], elections = Map.empty \<rparr>"

definition sample_active :: active_transactions where
  "sample_active =
     \<lparr> roots = [\<lparr> ci_root = 9, ci_election = 0, announcements = 0 \<rparr>],
       successors = [(5, 0)],
       elections = [0 \<mapsto> sample_election] \<rparr>"

text \<open>
  A store that already holds a vote of sequence 5 for the account: \<open>vote_max\<close> gives the
  higher of the stored vote and the offered one.
\<close>

definition sample_stored_max :: "vote \<Rightarrow> vote" where
  "sample_stored_max v = (if sequence v < 5 then sample_vote 5 else v)"

text \<open>
  An election just started for \<open>sample_block\<close>, and a vote from the account of the
  election's initial entry for another block with the same root.
\<close>

definition fresh_active :: active_transactions where
  "fresh_active =
     \<lparr> roots = [\<lparr> ci_root = 9, ci_election = 0, announcements = 0 \<rparr>],
       successors = [(5, 0)],
       elections = [0 \<mapsto> election_init (sample_node chratos_test_network 150 60 0) sample_block] \<rparr>"

definition stray_vote :: vote where
  "stray_vote =
     \<lparr> account = not_an_account, sequence = 1,
       vote_blocks = [Vote_block \<lparr> hash = 6, root = 9, block_work = 0 \<rparr>] \<rparr>"

text \<open>
  Two elections, the first with a vote of sequence 1 from account 7 already, the second just
  started; a vote of account 7 for both blocks; and the elections after that vote.
\<close>

definition second_block :: block where
  "second_block = \<lparr> hash = 6, root = 10, block_work = 0 \<rparr>"

definition two_elections :: active_transactions where
  "two_elections =
     \<lparr> roots = [\<lparr> ci_root = 9, ci_election = 0, announcements = 0 \<rparr>,
                \<lparr> ci_root = 10, ci_election = 1, announcements = 0 \<rparr>],
       successors = [(5, 0), (6, 1)],
       elections = [0 \<mapsto> sample_election,
                    1 \<mapsto> election_init (sample_node chratos_test_network 150 40 0) second_block] \<rparr>"

definition second_election_voted :: election where
  "second_election_voted =
     (election_init (sample_node chratos_test_network 150 40 0) second_block)
       \<lparr> status_tally := 40,
         last_votes := [(0, \<lparr> vi_time = 0, vi_sequence = 0, vi_hash = 6 \<rparr>),
                        (7, \<lparr> vi_time = 50000000000, vi_sequence = 1, vi_hash = 6 \<rparr>)],
         last_tally := [(6, 40)] \<rparr>"

definition two_elections_voted :: active_transactions where
  "two_elections_voted =
     \<lparr> roots = [\<lparr> ci_root = 9, ci_election = 0, announcements = 0 \<rparr>,
                \<lparr> ci_root = 10, ci_election = 1, announcements = 0 \<rparr>],
       successors = [(5, 0), (6, 1)],
       elections = [0 \<mapsto> sample_election, 1 \<mapsto> second_election_voted] \<rparr>"

definition sample_vote_two :: vote where
  "sample_vote_two = \<lparr> account = 7, sequence = 1, vote_blocks = [Vote_hash 5, Vote_hash 6] \<rparr>"

section \<open>Block processor, gap cache and peer container (chratos/node/node.cpp)\<close>

text \<open>
  A function that ends in \<open>assert (false)\<close> aborts a debug build there; a release build
  goes on. \<open>Assertion_failed\<close> carries what the release build goes on with.
\<close>

datatype 'a asserted = Passed 'a | Assertion_failed 'a

fun asserted_value :: "'a asserted \<Rightarrow> 'a" where
  "asserted_value (Passed x) = x"
| "asserted_value (Assertion_failed x) = x"

subsection \<open>Block processor\<close>

record block_processor =
  bp_blocks :: "(block \<times> time_point) list"
  blocks_hashes :: "block_hash set"
  forced :: "block list"

definition block_processor_init :: block_processor where
  "block_processor_init = \<lparr> bp_blocks = [], blocks_hashes = {}, forced = [] \<rparr>"

text \<open>
  \<open>block_processor::add\<close>. \<open>work_validate\<close> (true when the proof of work is not valid)
  is defined in a file that is not among the sources and is a parameter.
\<close>

definition add ::
  "(uint256_t \<Rightarrow> uint64_t \<Rightarrow> bool) \<Rightarrow> block \<Rightarrow> time_point \<Rightarrow> block_processor
     \<Rightarrow> block_processor asserted" where
  "add work_validate block_a origination bp =
     (if \<not> work_validate (root block_a) (block_work block_a) then
        (if hash block_a \<notin> blocks_hashes bp then
           Passed (bp\<lparr> bp_blocks := bp_blocks bp @ [(block_a, origination)],
                        blocks_hashes := insert (hash block_a) (blocks_hashes bp) \<rparr>)
         else Passed bp)
      else Assertion_failed bp)"

definition force :: "block \<Rightarrow> block_processor \<Rightarrow> block_processor" where
  "force block_a bp = bp\<lparr> forced := forced bp @ [block_a] \<rparr>"

definition have_blocks :: "block_processor \<Rightarrow> bool" where
  "have_blocks bp = (bp_blocks bp \<noteq> [] \<or> forced bp \<noteq> [])"

text \<open>
  What one turn of the loop of \<open>process_receive_many\<close> takes from the queues: the block, its
  origination and whether it was forced. The turn then hands the block to the ledger
  (\<open>process_receive_one\<close>), which reaches the block processor again only through \<open>add\<close>
  and \<open>force\<close>.
\<close>

definition next_block ::
  "time_point \<Rightarrow> block_processor \<Rightarrow> ((block \<times> time_point \<times> bool) \<times> block_processor) option" where
  "next_block now_a bp =
     (case forced bp of
        [] \<Rightarrow>
          (case bp_blocks bp of
             [] \<Rightarrow> None
           | block # rest \<Rightarrow>
               Some ((fst block, snd block, False),
                 bp\<lparr> bp_blocks := rest, blocks_hashes := blocks_hashes bp - {hash (fst block)} \<rparr>))
      | block # rest \<Rightarrow> Some ((block, now_a, True), bp\<lparr> forced := rest \<rparr>))"

text \<open>
  The loop of \<open>process_receive_many\<close> with nothing arriving meanwhile: the blocks handed to
  the ledger, in order, at most 16384 of them; \<open>remaining\<close> is \<open>16384 - count\<close>.
\<close>

fun process_receive_loop ::
  "nat \<Rightarrow> time_point \<Rightarrow> block_processor \<Rightarrow> (block \<times> time_point \<times> bool) list \<times> block_processor" where
  "process_receive_loop 0 now_a bp = ([], bp)"
| "process_receive_loop (Suc remaining) now_a bp =
     (case next_block now_a bp of
        None \<Rightarrow> ([], bp)
      | Some (block, bp1) \<Rightarrow>
          (let (processed, bp2) = process_receive_loop remaining now_a bp1
           in (block # processed, bp2)))"

definition process_receive_many ::
  "time_point \<Rightarrow> block_processor \<Rightarrow> (block \<times> time_point \<times> bool) list \<times> block_processor" where
  "process_receive_many now_a bp = process_receive_loop 16384 now_a bp"

datatype block_processor_op =
    Add block time_point
  | Force_block block
  | Next_block time_point

fun block_processor_step ::
  "(uint256_t \<Rightarrow> uint64_t \<Rightarrow> bool) \<Rightarrow> block_processor_op \<Rightarrow> block_processor \<Rightarrow> block_processor" where
  "block_processor_step work_validate (Add block_a origination) bp =
     asserted_value (add work_validate block_a origination bp)"
| "block_processor_step work_validate (Force_block block_a) bp = force block_a bp"
| "block_processor_step work_validate (Next_block now_a) bp =
     (case next_block now_a bp of None \<Rightarrow> bp | Some (block, bp1) \<Rightarrow> bp1)"

text \<open>The block processor after a sequence of calls, starting empty.\<close>

definition block_processor_after ::
  "(uint256_t \<Rightarrow> uint64_t \<Rightarrow> bool) \<Rightarrow> block_processor_op list \<Rightarrow> block_processor" where
  "block_processor_after work_validate ops = fold (block_processor_step work_validate) ops block_processor_init"

text \<open>The queue holds each hash once, and \<open>blocks_hashes\<close> is the set of its hashes.\<close>

definition queue_deduplicated :: "block_processor \<Rightarrow> bool" where
  "queue_deduplicated bp =
     (distinct (map (\<lambda>x. hash (fst x)) (bp_blocks bp))
      \<and> set (map (\<lambda>x. hash (fst x)) (bp_blocks bp)) = blocks_hashes bp)"

subsection \<open>Gap cache\<close>

record gap_information =
  arrival :: time_point
  gap_hash :: block_hash
  voters :: "account list"

datatype gap_event = Bootstrap_check time_point block_hash

definition bootstrap_threshold :: "node \<Rightarrow> uint128_t" where
  "bootstrap_threshold n = (online_stake n div 256) * ucast (bootstrap_fraction_numerator n)"

text \<open>\<open>voters.insert (account).second\<close> on the unordered set of voters.\<close>

definition voters_insert :: "account \<Rightarrow> account list \<Rightarrow> bool \<times> account list" where
  "voters_insert a vs = (if a \<in> set vs then (False, vs) else (True, vs @ [a]))"

definition voters_tally :: "node \<Rightarrow> account list \<Rightarrow> uint128_t" where
  "voters_tally n vs = fold (\<lambda>voter tally_l. tally_l + ledger_weight n voter) vs 0"

text \<open>The body of the loop of \<open>gap_cache::vote\<close> for one hash of the vote.\<close>

fun gap_cache_vote_hash ::
  "node \<Rightarrow> account \<Rightarrow> block_hash \<Rightarrow> gap_information list \<Rightarrow> gap_information list \<times> gap_event list" where
  "gap_cache_vote_hash n voter h [] = ([], [])"
| "gap_cache_vote_hash n voter h (existing # rest) =
     (if gap_hash existing = h then
        (let (is_new, vs) = voters_insert voter (voters existing);
             modified = existing\<lparr> voters := vs \<rparr>
         in if is_new then
              (if voters_tally n vs > bootstrap_threshold n
               then (modified # rest,
                     [Bootstrap_check
                        (if chratos_network n = chratos_test_network then now n + 5000000
                         else now n + 5 * 1000000000) h])
               else (modified # rest, []))
            else (modified # rest, []))
      else (let (rest1, events) = gap_cache_vote_hash n voter h rest in (existing # rest1, events)))"

definition vote_block_hash :: "vote_block \<Rightarrow> block_hash" where
  "vote_block_hash vb = (case vb of Vote_hash h \<Rightarrow> h | Vote_block b \<Rightarrow> hash b)"

fun gap_cache_vote_loop ::
  "node \<Rightarrow> account \<Rightarrow> block_hash list \<Rightarrow> gap_information list \<Rightarrow> gap_information list \<times> gap_event list" where
  "gap_cache_vote_loop n voter [] cache = (cache, [])"
| "gap_cache_vote_loop n voter (h # hs) cache =
     (let (cache1, events) = gap_cache_vote_hash n voter h cache;
          (cache2, later) = gap_cache_vote_loop n voter hs cache1
      in (cache2, events @ later))"

definition gap_cache_vote ::
  "node \<Rightarrow> vote \<Rightarrow> gap_information list \<Rightarrow> gap_information list \<times> gap_event list" where
  "gap_cache_vote n vote_a cache =
     gap_cache_vote_loop n (account vote_a) (map vote_block_hash (vote_blocks vote_a)) cache"

subsection \<open>Peer container\<close>

text \<open>
  An endpoint is an IPv6 address, here the number its 16 bytes spell, and a port; the peer
  container asserts that every address it is given is a v6 address.
\<close>

record endpoint =
  address :: uint128_t
  port :: "16 word"

text \<open>
  Modelled from the spec: \<open>max_peers_per_ip\<close> is declared in node.hpp, which is not among
  the sources; the specification's timing parameters give "max_peers_per_ip = 10".
\<close>

definition max_peers_per_ip :: nat where
  "max_peers_per_ip = 10"

text \<open>
  The other constants of headers that are not among the sources, as parameters:
  \<open>node_id_version\<close>, \<open>protocol_version_min\<close>, \<open>max_legacy_peers\<close> and
  \<open>max_legacy_peers_per_ip\<close>.
\<close>

record peer_constants =
  node_id_version :: "32 word"
  protocol_version_min :: "32 word"
  max_legacy_peers :: nat
  max_legacy_peers_per_ip :: nat

record syn_cookie_info =
  cookie :: uint256_t
  created_at :: time_point

record peer_information =
  peer_endpoint :: endpoint
  ip_address :: uint128_t
  last_contact :: time_point
  last_attempt :: time_point
  last_bootstrap_attempt :: time_point
  last_rep_request :: time_point
  last_rep_response :: time_point
  rep_weight :: uint128_t
  probable_rep_account :: account
  network_version :: "32 word"

record peer_container =
  self :: endpoint
  peers :: "peer_information list"
  legacy_peers :: nat
  syn_cookies :: "endpoint \<rightharpoonup> syn_cookie_info"
  syn_cookies_per_ip :: "uint128_t \<rightharpoonup> 32 word"

text \<open>The value \<open>syn_cookies_per_ip[ip]\<close> reads: 0 for an address without an entry.\<close>

definition ip_cookies :: "peer_container \<Rightarrow> uint128_t \<Rightarrow> 32 word" where
  "ip_cookies c ip_addr = (case syn_cookies_per_ip c ip_addr of None \<Rightarrow> 0 | Some k \<Rightarrow> k)"

text \<open>
  \<open>peer_container::assign_syn_cookie\<close>; \<open>query\<close> is the block the random pool
  generates.
\<close>

definition assign_syn_cookie ::
  "uint256_t \<Rightarrow> time_point \<Rightarrow> endpoint \<Rightarrow> peer_container \<Rightarrow> uint256_t option \<times> peer_container" where
  "assign_syn_cookie query now_a endpoint_a c =
     (let ip_addr = address endpoint_a;
          count = ip_cookies c ip_addr;
          c1 = c\<lparr> syn_cookies_per_ip := (syn_cookies_per_ip c)(ip_addr \<mapsto> count) \<rparr>
      in if unat count < max_peers_per_ip then
           (if syn_cookies c1 endpoint_a = None then
              (Some query,
               c1\<lparr> syn_cookies := (syn_cookies c1)(endpoint_a \<mapsto> \<lparr> cookie = query, created_at = now_a \<rparr>),
                    syn_cookies_per_ip := (syn_cookies_per_ip c1)(ip_addr \<mapsto> count + 1) \<rparr>)
            else (None, c1))
         else (None, c1))"

text \<open>
  \<open>peer_container::validate_syn_cookie\<close>. \<open>validate_message\<close> (true when the
  signature does not verify) belongs to the signature library and is a parameter.
\<close>

definition validate_syn_cookie ::
  "(account \<Rightarrow> uint256_t \<Rightarrow> 512 word \<Rightarrow> bool) \<Rightarrow> endpoint \<Rightarrow> account \<Rightarrow> 512 word \<Rightarrow> peer_container
     \<Rightarrow> (bool \<times> peer_container) asserted" where
  "validate_syn_cookie validate_message endpoint_a node_id sig c =
     (let ip_addr = address endpoint_a in
      case syn_cookies c endpoint_a of
        None \<Rightarrow> Passed (True, c)
      | Some info \<Rightarrow>
          if \<not> validate_message node_id (cookie info) sig then
            (let c1 = c\<lparr> syn_cookies := (syn_cookies c)(endpoint_a := None) \<rparr>;
                 count = ip_cookies c1 ip_addr
             in if count > 0
                then Passed (False, c1\<lparr> syn_cookies_per_ip := (syn_cookies_per_ip c1)(ip_addr \<mapsto> count - 1) \<rparr>)
                else Assertion_failed
                       (False, c1\<lparr> syn_cookies_per_ip := (syn_cookies_per_ip c1)(ip_addr \<mapsto> count) \<rparr>))
          else Passed (True, c))"

definition mapped_from_v4_bytes :: "uint128_t \<Rightarrow> uint128_t" where
  "mapped_from_v4_bytes address_a = 0xffff00000000 OR address_a"

definition in_range :: "uint128_t \<Rightarrow> uint128_t \<Rightarrow> uint128_t \<Rightarrow> bool" where
  "in_range bytes_a lo hi = (bytes_a \<ge> lo \<and> bytes_a \<le> hi)"

definition reserved_address :: "chratos_networks \<Rightarrow> endpoint \<Rightarrow> bool \<Rightarrow> bool" where
  "reserved_address network endpoint_a blacklist_loopback =
     (let bytes_a = address endpoint_a in
      if in_range bytes_a (mapped_from_v4_bytes 0x00000000) (mapped_from_v4_bytes 0x00ffffff) then True
      else if in_range bytes_a (mapped_from_v4_bytes 0xc0000200) (mapped_from_v4_bytes 0xc00002ff) then True
      else if in_range bytes_a (mapped_from_v4_bytes 0xc6336400) (mapped_from_v4_bytes 0xc63364ff) then True
      else if in_range bytes_a (mapped_from_v4_bytes 0xcb007100) (mapped_from_v4_bytes 0xcb0071ff) then True
      else if in_range bytes_a (mapped_from_v4_bytes 0xe0000000) (mapped_from_v4_bytes 0xefffffff) then True
      else if in_range bytes_a (mapped_from_v4_bytes 0xf0000000) (mapped_from_v4_bytes 0xffffffff) then True
      else if in_range bytes_a 0x01000000000000000000000000000000 0x0100000000000000ffffffffffffffff then True
      else if in_range bytes_a 0x20010db8000000000000000000000000 0x20010db8ffffffffffffffffffffffff then True
      else if in_range bytes_a 0xff000000000000000000000000000000 0xff00ffffffffffffffffffffffffffff then True
      else if blacklist_loopback \<and> bytes_a = 1 then True
      else if blacklist_loopback
              \<and> in_range bytes_a (mapped_from_v4_bytes 0x7f000000) (mapped_from_v4_bytes 0x7fffffff) then True
      else if network = chratos_live_network then
        (if in_range bytes_a (mapped_from_v4_bytes 0x0a000000) (mapped_from_v4_bytes 0x0affffff) then True
         else if in_range bytes_a (mapped_from_v4_bytes 0xac100000) (mapped_from_v4_bytes 0xac1fffff) then True
         else if in_range bytes_a (mapped_from_v4_bytes 0xc0a80000) (mapped_from_v4_bytes 0xc0a8ffff) then True
         else if in_range bytes_a (mapped_from_v4_bytes 0x64400000) (mapped_from_v4_bytes 0x647fffff) then True
         else if in_range bytes_a 0xfc000000000000000000000000000000 0xfd00ffffffffffffffffffffffffffff then True
         else False)
      else False)"

definition not_a_peer :: "chratos_networks \<Rightarrow> peer_container \<Rightarrow> endpoint \<Rightarrow> bool \<Rightarrow> bool" where
  "not_a_peer network c endpoint_a blacklist_loopback =
     (if address endpoint_a = 0 then True
      else if reserved_address network endpoint_a blacklist_loopback then True
      else if endpoint_a = self c then True
      else False)"

definition new_peer_information :: "endpoint \<Rightarrow> 32 word \<Rightarrow> time_point \<Rightarrow> peer_information" where
  "new_peer_information endpoint_a network_version_a now_a =
     \<lparr> peer_endpoint = endpoint_a, ip_address = address endpoint_a,
       last_contact = now_a, last_attempt = now_a,
       last_bootstrap_attempt = 0, last_rep_request = 0, last_rep_response = 0,
       rep_weight = 0, probable_rep_account = 0, network_version = network_version_a \<rparr>"

text \<open>The loop of \<open>insert\<close> over the peers of one address: how many, and how many legacy.\<close>

definition ip_peers :: "peer_container \<Rightarrow> uint128_t \<Rightarrow> nat" where
  "ip_peers c ip_addr = length (filter (\<lambda>i. ip_address i = ip_addr) (peers c))"

definition legacy_ip_peers :: "peer_constants \<Rightarrow> peer_container \<Rightarrow> uint128_t \<Rightarrow> nat" where
  "legacy_ip_peers k c ip_addr =
     length (filter (\<lambda>i. ip_address i = ip_addr \<and> network_version i < node_id_version k) (peers c))"

text \<open>
  \<open>peer_container::insert\<close>: the result, the container, and the endpoints handed to
  \<open>peer_observer\<close>.
\<close>

definition insert_peer ::
  "chratos_networks \<Rightarrow> peer_constants \<Rightarrow> time_point \<Rightarrow> endpoint \<Rightarrow> 32 word \<Rightarrow> peer_container
     \<Rightarrow> bool \<times> peer_container \<times> endpoint list" where
  "insert_peer network k now_a endpoint_a version_a c =
     (let is_legacy = version_a < node_id_version k in
      if not_a_peer network c endpoint_a False then (True, c, [])
      else if version_a \<ge> protocol_version_min k then
        (if \<exists>i \<in> set (peers c). peer_endpoint i = endpoint_a then
           (True,
            c\<lparr> peers := map (\<lambda>i. if peer_endpoint i = endpoint_a then i\<lparr> last_contact := now_a \<rparr> else i)
                           (peers c) \<rparr>,
            [])
         else
           (let (result1, c1) =
                  (if is_legacy then
                     (if legacy_peers c < max_legacy_peers k
                      then (False, c\<lparr> legacy_peers := legacy_peers c + 1 \<rparr>)
                      else (True, c))
                   else (False, c));
                result2 =
                  (if \<not> result1 \<and> network \<noteq> chratos_test_network then
                     (if ip_peers c1 (address endpoint_a) \<ge> max_peers_per_ip
                         \<or> (is_legacy \<and> legacy_ip_peers k c1 (address endpoint_a) \<ge> max_legacy_peers_per_ip k)
                      then True else result1)
                   else result1)
            in if \<not> result2
               then (False,
                     c1\<lparr> peers := peers c1 @ [new_peer_information endpoint_a version_a now_a] \<rparr>,
                     [endpoint_a])
               else (True, c1, [])))
      else (False, c, []))"

text \<open>
  \<open>peer_container::purge_list\<close>: the peers heard from since the cutoff are returned and
  kept, the others are removed, and the legacy counter goes down by one for each legacy peer
  removed; the assertion fails when the counter would go below zero.
\<close>

definition purge_list ::
  "peer_constants \<Rightarrow> time_point \<Rightarrow> time_point \<Rightarrow> peer_container
     \<Rightarrow> (peer_information list \<times> peer_container) asserted" where
  "purge_list k now_a cutoff c =
     (let result = filter (\<lambda>i. \<not> last_contact i < cutoff) (peers c);
          removed_legacy =
            length (filter (\<lambda>i. last_contact i < cutoff \<and> network_version i < node_id_version k) (peers c));
          c1 = c\<lparr> legacy_peers := legacy_peers c - removed_legacy,
                   peers := map (\<lambda>i. i\<lparr> last_attempt := now_a \<rparr>) result \<rparr>
      in if removed_legacy \<le> legacy_peers c then Passed (result, c1) else Assertion_failed (result, c1))"

definition known_peer :: "peer_container \<Rightarrow> endpoint \<Rightarrow> bool" where
  "known_peer c endpoint_a = (\<exists>i \<in> set (peers c). peer_endpoint i = endpoint_a)"

definition contacted ::
  "chratos_networks \<Rightarrow> peer_constants \<Rightarrow> time_point \<Rightarrow> endpoint \<Rightarrow> 32 word \<Rightarrow> peer_container
     \<Rightarrow> bool \<times> peer_container \<times> endpoint list" where
  "contacted network k now_a endpoint_l version_a c =
     (if version_a < node_id_version k then
        (let (rejected, c1, observed) = insert_peer network k now_a endpoint_l version_a c
         in (False, c1, observed))
      else if \<not> known_peer c endpoint_l \<and> ip_peers c (address endpoint_l) < max_peers_per_ip
      then (True, c, [])
      else (False, c, []))"

definition rep_response ::
  "time_point \<Rightarrow> endpoint \<Rightarrow> account \<Rightarrow> uint128_t \<Rightarrow> peer_container \<Rightarrow> bool \<times> peer_container" where
  "rep_response now_a endpoint_a rep_account_a weight_a c =
     (\<exists>i \<in> set (peers c). peer_endpoint i = endpoint_a \<and> rep_weight i < weight_a,
      c\<lparr> peers := map (\<lambda>i. if peer_endpoint i = endpoint_a
                              then (if rep_weight i < weight_a
                                    then i\<lparr> last_rep_response := now_a, rep_weight := weight_a,
                                            probable_rep_account := rep_account_a \<rparr>
                                    else i\<lparr> last_rep_response := now_a \<rparr>)
                              else i) (peers c) \<rparr>)"

definition rep_request :: "time_point \<Rightarrow> endpoint \<Rightarrow> peer_container \<Rightarrow> peer_container" where
  "rep_request now_a endpoint_a c =
     c\<lparr> peers := map (\<lambda>i. if peer_endpoint i = endpoint_a then i\<lparr> last_rep_request := now_a \<rparr> else i)
                     (peers c) \<rparr>"

definition peer_container_init :: "endpoint \<Rightarrow> peer_container" where
  "peer_container_init self_a =
     \<lparr> self = self_a, peers = [], legacy_peers = 0, syn_cookies = Map.empty,
       syn_cookies_per_ip = Map.empty \<rparr>"

datatype peer_op =
    Insert endpoint "32 word" time_point
  | Contacted endpoint "32 word" time_point
  | Purge_list time_point time_point
  | Rep_response endpoint account uint128_t time_point
  | Rep_request endpoint time_point

fun peer_step :: "chratos_networks \<Rightarrow> peer_constants \<Rightarrow> peer_op \<Rightarrow> peer_container \<Rightarrow> peer_container" where
  "peer_step network k (Insert endpoint_a version_a now_a) c =
     fst (snd (insert_peer network k now_a endpoint_a version_a c))"
| "peer_step network k (Contacted endpoint_a version_a now_a) c =
     fst (snd (contacted network k now_a endpoint_a version_a c))"
| "peer_step network k (Purge_list now_a cutoff) c = snd (asserted_value (purge_list k now_a cutoff c))"
| "peer_step network k (Rep_response endpoint_a rep_account_a weight_a now_a) c =
     snd (rep_response now_a endpoint_a rep_account_a weight_a c)"
| "peer_step network k (Rep_request endpoint_a now_a) c = rep_request now_a endpoint_a c"

text \<open>The peer container after a sequence of calls, starting without peers.\<close>

definition peers_after ::
  "chratos_networks \<Rightarrow> peer_constants \<Rightarrow> endpoint \<Rightarrow> peer_op list \<Rightarrow> peer_container" where
  "peers_after network k self_a ops = fold (peer_step network k) ops (peer_container_init self_a)"

text \<open>Endpoints presented to \<open>insert\<close> one after the other: the results, in order.\<close>

fun insert_all ::
  "chratos_networks \<Rightarrow> peer_constants \<Rightarrow> time_point \<Rightarrow> 32 word \<Rightarrow> endpoint list \<Rightarrow> peer_container
     \<Rightarrow> bool list \<times> peer_container" where
  "insert_all network k now_a version_a [] c = ([], c)"
| "insert_all network k now_a version_a (endpoint_a # rest) c =
     (let (result, c1, observed) = insert_peer network k now_a endpoint_a version_a c;
          (results, c2) = insert_all network k now_a version_a rest c1
      in (result # results, c2))"

text \<open>No address has more than \<open>max_peers_per_ip\<close> peers.\<close>

definition peers_capped :: "peer_container \<Rightarrow> bool" where
  "peers_capped c = (\<forall>ip. ip_peers c ip \<le> max_peers_per_ip)"

definition sample_endpoint :: "16 word \<Rightarrow> endpoint" where
  "sample_endpoint p = \<lparr> address = 0x20010db9000000000000000000000001, port = p \<rparr>"

definition sample_constants :: peer_constants where
  "sample_constants =
     \<lparr> node_id_version = 12, protocol_version_min = 7, max_legacy_peers = 500,
       max_legacy_peers_per_ip = 5 \<rparr>"

definition sample_validate_message :: "account \<Rightarrow> uint256_t \<Rightarrow> 512 word \<Rightarrow> bool" where
  "sample_validate_message node_id message sig = (sig \<noteq> ucast message)"

section \<open>Properties of the account codec\<close>

lemma and_1f_take_bit: "(n :: uint512_t) AND 0x1f = take_bit 5 n"
  using take_bit_eq_mask [of 5 n] by (simp add: mask_eq_exp_minus_1)

lemma ucast_and_1f: "(ucast (n AND 0x1f :: uint512_t) :: uint8_t) = take_bit 5 (ucast n)"
  unfolding and_1f_take_bit by (rule bit_word_eqI) (auto simp add: bit_simps)

lemma and_1f_less: "(ucast (n AND 0x1f :: uint512_t) :: uint8_t) < 32"
proof -
  have "unat (take_bit 5 (ucast n :: uint8_t)) < 2 ^ 5"
    unfolding unsigned_take_bit_eq by (rule take_bit_nat_less_exp)
  then show ?thesis
    unfolding ucast_and_1f by (simp add: word_less_nat_alt)
qed

lemma ucast_ucast_and_1f: "(ucast (ucast (n AND 0x1f :: uint512_t) :: uint8_t) :: uint512_t) = take_bit 5 n"
  unfolding and_1f_take_bit by (rule bit_word_eqI) (auto simp add: bit_simps)

lemma take_bit_step:
  "push_bit 5 (take_bit m (drop_bit 5 (n :: uint512_t))) + take_bit 5 n = take_bit (m + 5) n"
proof -
  have "push_bit 5 (drop_bit 5 (take_bit (m + 5) n)) + take_bit 5 (take_bit (m + 5) n) = take_bit (m + 5) n"
    by (rule bits_ident)
  moreover have "drop_bit 5 (take_bit (m + 5) n) = take_bit m (drop_bit 5 n)"
    by (simp add: drop_bit_take_bit)
  moreover have "take_bit 5 (take_bit (m + 5) n) = take_bit 5 n"
    by simp
  ultimately show ?thesis by simp
qed

lemma number_parts:
  fixes a :: uint256_t and c :: "40 word"
  defines "N \<equiv> push_bit 40 (ucast a :: uint512_t) OR ucast (ucast c :: uint64_t)"
  shows "take_bit 300 N = N"
    and "(ucast (drop_bit 40 N) :: uint256_t) = a"
    and "(ucast (N AND 0xffffffffff) :: uint64_t) = ucast c"
    and "drop_bit 40 N = ucast a"
    and "take_bit 40 N = ucast c"
proof -
  show "take_bit 300 N = N"
    unfolding N_def by (rule bit_word_eqI) (auto simp add: bit_simps dest: bit_imp_le_length)
  show "(ucast (drop_bit 40 N) :: uint256_t) = a"
    unfolding N_def by (rule bit_word_eqI) (auto simp add: bit_simps dest: bit_imp_le_length)
  have m: "(0xffffffffff :: uint512_t) = mask 40" by (simp add: mask_eq_exp_minus_1)
  show "(ucast (N AND 0xffffffffff) :: uint64_t) = ucast c"
    unfolding N_def m by (rule bit_word_eqI) (auto simp add: bit_simps dest: bit_imp_le_length)
  show "drop_bit 40 N = ucast a"
    unfolding N_def by (rule bit_word_eqI) (auto simp add: bit_simps dest: bit_imp_le_length)
  show "take_bit 40 N = ucast c"
    unfolding N_def by (rule bit_word_eqI) (auto simp add: bit_simps dest: bit_imp_le_length)
qed

lemma account_table_roundtrip:
  "list_all (\<lambda>n. account_decode (account_lookup ! n) = of_nat n
       \<and> \<not> (of_char (account_lookup ! n) :: uint8_t) < 0x30
       \<and> \<not> (of_char (account_lookup ! n) :: uint8_t) \<ge> 0x80) [0..<32]"
  by (simp add: account_decode_def account_lookup_def account_reverse_def upt_rec)

lemma account_reverse_never_tilde:
  "list_all (\<lambda>x. (of_char x :: uint8_t) - 0x30 \<noteq> of_char CHR ''~'') account_reverse"
  by (simp add: account_reverse_def)

lemma unat_of_char: "unat (of_char c :: uint8_t) = of_char c"
proof -
  have "(of_char c :: uint8_t) = of_nat (of_char c)"
    by (simp only: of_nat_of_char)
  then have "unat (of_char c :: uint8_t) = (of_char c :: nat) mod 256"
    by (simp add: unat_of_nat)
  then show ?thesis by simp
qed

lemma account_decode_encode:
  assumes "r < 32"
  shows "account_decode (account_encode r) = r"
    and "\<not> (of_char (account_encode r) :: uint8_t) < 0x30"
    and "\<not> (of_char (account_encode r) :: uint8_t) \<ge> 0x80"
proof -
  from assms have "unat r < 32" by (simp add: word_less_nat_alt)
  then have "unat r \<in> set [0..<32]" by simp
  with account_table_roundtrip
  have *: "account_decode (account_lookup ! unat r) = of_nat (unat r)
       \<and> \<not> (of_char (account_lookup ! unat r) :: uint8_t) < 0x30
       \<and> \<not> (of_char (account_lookup ! unat r) :: uint8_t) \<ge> 0x80"
    unfolding list_all_iff by blast
  from * show "account_decode (account_encode r) = r" by (simp add: account_encode_def)
  from * show "\<not> (of_char (account_encode r) :: uint8_t) < 0x30" by (simp add: account_encode_def)
  from * show "\<not> (of_char (account_encode r) :: uint8_t) \<ge> 0x80" by (simp add: account_encode_def)
qed

lemma account_decode_never_tilde:
  assumes "\<not> (of_char c :: uint8_t) \<ge> 0x80"
  shows "account_decode c \<noteq> of_char CHR ''~''"
proof -
  have "(of_char c :: nat) < 128"
    using assms by (simp add: word_le_nat_alt unat_of_char)
  then have "(of_char c :: nat) - 0x30 < length account_reverse"
    by (simp add: account_reverse_def)
  then have "account_reverse ! (of_char c - 0x30) \<in> set account_reverse"
    by (rule nth_mem)
  with account_reverse_never_tilde show ?thesis
    unfolding list_all_iff account_decode_def by blast
qed

lemma decode_loop_single:
  assumes "\<not> (of_char c :: uint8_t) < 0x30" and "\<not> (of_char c :: uint8_t) \<ge> 0x80"
  shows "decode_loop [c] m = (False, push_bit 5 m + ucast (account_decode c))"
  using assms account_decode_never_tilde [OF assms(2)] by (simp add: Let_def)

lemma decode_loop_append:
  "decode_loop (xs @ ys) n =
     (case decode_loop xs n of (True, m) \<Rightarrow> (True, m) | (False, m) \<Rightarrow> decode_loop ys m)"
  by (induction xs arbitrary: n) (simp_all add: Let_def)

lemma decode_loop_encoded_digit:
  "decode_loop [account_encode (ucast (n AND 0x1f :: uint512_t))] m = (False, push_bit 5 m + take_bit 5 n)"
proof -
  let ?c = "account_encode (ucast (n AND 0x1f :: uint512_t))"
  have "decode_loop [?c] m = (False, push_bit 5 m + ucast (account_decode ?c))"
    using account_decode_encode(2,3) [OF and_1f_less, of n] by (rule decode_loop_single)
  also have "account_decode ?c = ucast (n AND 0x1f)"
    using and_1f_less by (rule account_decode_encode(1))
  finally show ?thesis by (simp only: ucast_ucast_and_1f)
qed

lemma decode_loop_rev_encode_loop:
  "decode_loop (rev (encode_loop k n)) m = (False, push_bit (5 * k) m + take_bit (5 * k) n)"
proof (induction k arbitrary: n m)
  case 0
  show ?case by simp
next
  case (Suc k)
  have k5: "5 * Suc k = 5 * k + 5" by simp
  have "decode_loop (rev (encode_loop (Suc k) n)) m
      = decode_loop [account_encode (ucast (n AND 0x1f))] (push_bit (5 * k) m + take_bit (5 * k) (drop_bit 5 n))"
    by (simp add: decode_loop_append Suc.IH del: decode_loop.simps)
  also have "\<dots> = (False, push_bit 5 (push_bit (5 * k) m + take_bit (5 * k) (drop_bit 5 n)) + take_bit 5 n)"
    by (rule decode_loop_encoded_digit)
  also have "push_bit 5 (push_bit (5 * k) m + take_bit (5 * k) (drop_bit 5 n)) + take_bit 5 n
      = push_bit (5 + 5 * k) m + (push_bit 5 (take_bit (5 * k) (drop_bit 5 n)) + take_bit 5 n)"
    by (simp only: push_bit_add push_bit_push_bit add.assoc)
  also have "\<dots> = push_bit (5 + 5 * k) m + take_bit (5 * k + 5) n"
    by (simp only: take_bit_step)
  also have "5 + 5 * k = 5 * Suc k" by simp
  also have "5 * k + 5 = 5 * Suc k" by simp
  finally show ?case .
qed

lemma encode_loop_add:
  "encode_loop (k + j) n = encode_loop k n @ encode_loop j (drop_bit (5 * k) n)"
proof (induction k arbitrary: n)
  case 0
  show ?case by simp
next
  case (Suc k)
  have "5 * Suc k = 5 * k + 5" by simp
  then have "drop_bit (5 * k) (drop_bit 5 n) = drop_bit (5 * Suc k) n"
    by (simp only: drop_bit_drop_bit)
  with Suc.IH [of "drop_bit 5 n"] show ?case by simp
qed

lemma length_encode_loop: "length (encode_loop k n) = k"
  by (induction k arbitrary: n) simp_all

lemma encode_loop_low_bits:
  "take_bit (5 * k) x = take_bit (5 * k) y \<Longrightarrow> encode_loop k x = encode_loop k y"
proof (induction k arbitrary: x y)
  case 0
  show ?case by simp
next
  case (Suc k)
  have k5: "5 * Suc k = 5 * k + 5" by simp
  from Suc.prems have eq: "take_bit (5 * k + 5) x = take_bit (5 * k + 5) y"
    by (simp only: k5)
  have "take_bit 5 (take_bit (5 * k + 5) x) = take_bit 5 (take_bit (5 * k + 5) y)"
    by (simp only: eq)
  then have low: "take_bit 5 x = take_bit 5 y" by simp
  have "drop_bit 5 (take_bit (5 * k + 5) x) = drop_bit 5 (take_bit (5 * k + 5) y)"
    by (simp only: eq)
  then have "take_bit (5 * k) (drop_bit 5 x) = take_bit (5 * k) (drop_bit 5 y)"
    by (simp add: drop_bit_take_bit)
  then have "encode_loop k (drop_bit 5 x) = encode_loop k (drop_bit 5 y)"
    by (rule Suc.IH)
  with low show ?case by (simp add: and_1f_take_bit)
qed

lemma encode_account_split:
  "encode_account h a =
     ''chr_'' @ rev (encode_loop 52 (ucast a)) @ rev (encode_loop 8 (ucast (h (bytes a))))"
proof -
  define N where "N = push_bit 40 (ucast a :: uint512_t) OR ucast (ucast (h (bytes a)) :: uint64_t)"
  have "encode_loop (8 + 52) N = encode_loop 8 N @ encode_loop 52 (drop_bit (5 * 8) N)"
    by (rule encode_loop_add)
  moreover have "drop_bit (5 * 8) N = ucast a"
    unfolding N_def using number_parts(4) [of a "h (bytes a)"] by simp
  moreover have "encode_loop 8 N = encode_loop 8 (ucast (h (bytes a)))"
  proof -
    have "encode_loop 8 x = encode_loop 8 y" if "take_bit 40 x = take_bit 40 y" for x y :: uint512_t
      using encode_loop_low_bits [of 8 x y] that by simp
    moreover have "take_bit 40 N = take_bit 40 (ucast (h (bytes a)) :: uint512_t)"
      unfolding N_def number_parts(5) by (rule bit_word_eqI) (auto simp add: bit_simps dest: bit_imp_le_length)
    ultimately show ?thesis by blast
  qed
  ultimately show ?thesis
    by (simp add: encode_account_def Let_def N_def)
qed

lemma encode_loop_snoc:
  "encode_loop (Suc k) n = encode_loop k n @ [account_encode (ucast (drop_bit (5 * k) n AND 0x1f))]"
  using encode_loop_add [of k 1 n] by simp

lemma top_digit:
  fixes a :: uint256_t
  shows "account_encode (ucast (drop_bit (5 * 51) (ucast a :: uint512_t) AND 0x1f)) \<in> {CHR ''1'', CHR ''3''}"
proof -
  have "take_bit 5 (drop_bit 255 (ucast a :: uint512_t)) = of_bool (bit a 255)"
  proof (rule bit_word_eqI)
    fix n
    show "bit (take_bit 5 (drop_bit 255 (ucast a :: uint512_t))) n = bit (of_bool (bit a 255) :: uint512_t) n"
    proof (cases "n = 0")
      case True
      then show ?thesis by (simp add: bit_simps)
    next
      case False
      then have "\<not> bit a (255 + n)"
        using bit_imp_le_length [of a "255 + n"] by auto
      with False show ?thesis by (auto simp add: bit_simps)
    qed
  qed
  then have "drop_bit 255 (ucast a :: uint512_t) AND 0x1f = of_bool (bit a 255)"
    by (simp only: and_1f_take_bit)
  then show ?thesis
    by (simp add: account_encode_def account_lookup_def)
qed

lemma encode_decode_roundtrip:
  "decode_account h (encode_account h a) this = (False, a)"
proof -
  define N where "N = push_bit 40 (ucast a :: uint512_t) OR ucast (ucast (h (bytes a)) :: uint64_t)"
  define ds where "ds = rev (encode_loop 60 N)"
  have enc: "encode_account h a = ''chr_'' @ ds"
    by (simp add: encode_account_def Let_def N_def ds_def)
  have len: "length ds = 60" by (simp add: ds_def length_encode_loop)
  have "ds = rev (encode_loop 52 (ucast a)) @ rev (encode_loop 8 (ucast (h (bytes a))))"
    using encode_account_split [of h a] enc by simp
  also have "encode_loop 52 (ucast a :: uint512_t) = encode_loop (Suc 51) (ucast a)" by simp
  finally have "ds ! 0 = account_encode (ucast (drop_bit (5 * 51) (ucast a :: uint512_t) AND 0x1f))"
    unfolding encode_loop_snoc by simp
  with top_digit [of a] have first: "ds ! 0 = CHR ''1'' \<or> ds ! 0 = CHR ''3''" by simp
  have "decode_loop ds 0 = (False, take_bit (5 * 60) N)"
    unfolding ds_def decode_loop_rev_encode_loop by simp
  then have dec: "decode_loop ds 0 = (False, N)"
    using number_parts(1) [of a "h (bytes a)"] by (simp add: N_def)
  have key: "(ucast (drop_bit 40 N) :: uint256_t) = a"
    unfolding N_def by (rule number_parts(2))
  have chk: "(ucast (N AND 0xffffffffff) :: uint64_t) = ucast (h (bytes a))"
    unfolding N_def by (rule number_parts(3))
  show ?thesis
    unfolding enc decode_account_def using len first dec key chk
    by (simp add: Let_def)
qed

lemma account_lookup_digits:
  "list_all (\<lambda>c. account_decode c = of_nat (digit_value c) \<and> digit_value c < 32
       \<and> \<not> (of_char c :: uint8_t) < 0x30 \<and> \<not> (of_char c :: uint8_t) \<ge> 0x80) account_lookup"
  by (simp add: account_decode_def digit_value_def account_lookup_def account_reverse_def)

lemma alphabet_digit:
  assumes "c \<in> set account_lookup"
  shows "account_decode c = of_nat (digit_value c)" and "digit_value c < 32"
    and "\<not> (of_char c :: uint8_t) < 0x30" and "\<not> (of_char c :: uint8_t) \<ge> 0x80"
  using assms account_lookup_digits unfolding list_all_iff by blast+

lemma foldl_base32_bound:
  "set ds \<subseteq> set account_lookup \<Longrightarrow>
     foldl (\<lambda>n c. 32 * n + digit_value c) m ds < (m + 1) * 32 ^ length ds"
proof (induction ds arbitrary: m)
  case Nil
  show ?case by simp
next
  case (Cons c cs)
  then have d: "digit_value c < 32" and cs: "set cs \<subseteq> set account_lookup"
    by (simp_all add: alphabet_digit(2))
  have "foldl (\<lambda>n c. 32 * n + digit_value c) (32 * m + digit_value c) cs
      < (32 * m + digit_value c + 1) * 32 ^ length cs"
    using cs by (rule Cons.IH)
  also have "\<dots> \<le> (32 * (m + 1)) * 32 ^ length cs"
    using d by (intro mult_right_mono) simp_all
  also have "\<dots> = (m + 1) * 32 ^ length (c # cs)"
    by (simp add: algebra_simps)
  finally show ?case by simp
qed

lemma base32_value_bound:
  "set ds \<subseteq> set account_lookup \<Longrightarrow> base32_value ds < 32 ^ length ds"
  using foldl_base32_bound [of ds 0] by (simp add: base32_value_def)

lemma foldl_base32_shift:
  "foldl (\<lambda>n c. 32 * n + digit_value c) m ds = m * 32 ^ length ds + base32_value ds"
proof (induction ds arbitrary: m)
  case Nil
  show ?case by (simp add: base32_value_def)
next
  case (Cons c cs)
  have "foldl (\<lambda>n c. 32 * n + digit_value c) m (c # cs)
      = (32 * m + digit_value c) * 32 ^ length cs + base32_value cs"
    by (simp add: Cons.IH)
  moreover have "base32_value (c # cs) = digit_value c * 32 ^ length cs + base32_value cs"
    by (simp add: base32_value_def Cons.IH [of "digit_value c"])
  ultimately show ?case by (simp add: algebra_simps)
qed

lemma decode_loop_alphabet:
  "set ds \<subseteq> set account_lookup \<Longrightarrow>
     decode_loop ds (of_nat m) = (False, of_nat (foldl (\<lambda>n c. 32 * n + digit_value c) m ds))"
proof (induction ds arbitrary: m)
  case Nil
  show ?case by simp
next
  case (Cons c cs)
  then have c: "c \<in> set account_lookup" and cs: "set cs \<subseteq> set account_lookup"
    by simp_all
  have "(ucast (of_nat (digit_value c) :: uint8_t) :: uint512_t) = of_nat (digit_value c)"
    using alphabet_digit(2) [OF c] by (simp add: unsigned_of_nat take_bit_nat_eq_self)
  then have step: "push_bit 5 (of_nat m :: uint512_t) + ucast (account_decode c)
      = of_nat (32 * m + digit_value c)"
    by (simp add: alphabet_digit(1) [OF c] push_bit_eq_mult)
  have "decode_loop (c # cs) (of_nat m)
      = decode_loop cs (push_bit 5 (of_nat m) + ucast (account_decode c))"
    using alphabet_digit(3,4) [OF c] account_decode_never_tilde [OF alphabet_digit(4) [OF c]]
    by (simp add: Let_def)
  also have "\<dots> = decode_loop cs (of_nat (32 * m + digit_value c))"
    by (simp only: step)
  also have "\<dots> = (False, of_nat (foldl (\<lambda>n c. 32 * n + digit_value c) (32 * m + digit_value c) cs))"
    using cs by (rule Cons.IH)
  finally show ?case by simp
qed

lemma number_sum:
  fixes a :: uint256_t and c :: "40 word"
  shows "push_bit 40 (ucast a :: uint512_t) + ucast c
       = push_bit 40 (ucast a) OR ucast (ucast c :: uint64_t)"
proof -
  have "(ucast c :: uint512_t) = ucast (ucast c :: uint64_t)"
    by (rule bit_word_eqI) (auto simp add: bit_simps dest: bit_imp_le_length)
  moreover have "push_bit 40 (ucast a :: uint512_t) AND ucast c = 0"
    by (rule bit_word_eqI) (auto simp add: bit_simps dest: bit_imp_le_length)
  ultimately show ?thesis by (simp add: disjunctive_add_eq_or)
qed

lemma encode_loop_zero: "encode_loop k (0 :: uint512_t) = replicate k CHR ''1''"
proof (induction k)
  case 0
  show ?case by simp
next
  case (Suc k)
  have "account_encode (ucast ((0 :: uint512_t) AND 0x1f)) = CHR ''1''"
    by (simp add: account_encode_def account_lookup_def)
  with Suc show ?case by simp
qed

lemma encode_loop_78:
  "rev (encode_loop 52 (ucast (78 :: uint256_t))) = replicate 50 CHR ''1'' @ ''4g''"
proof -
  have "encode_loop (2 + 50) (78 :: uint512_t) = encode_loop 2 78 @ encode_loop 50 (drop_bit (5 * 2) 78)"
    by (rule encode_loop_add)
  moreover have "encode_loop 2 (78 :: uint512_t) = ''g4''"
  proof -
    have "encode_loop 2 (78 :: uint512_t) = encode_loop (Suc (Suc 0)) 78"
      by (simp only: numeral_2_eq_2)
    also have "\<dots> = ''g4''"
      by (simp add: drop_bit_eq_div account_encode_def account_lookup_def)
    finally show ?thesis .
  qed
  moreover have "drop_bit (5 * 2) (78 :: uint512_t) = 0"
    by (simp add: drop_bit_eq_div)
  ultimately have "encode_loop 52 (78 :: uint512_t) = ''g4'' @ replicate 50 CHR ''1''"
    by (simp add: encode_loop_zero)
  then show ?thesis by simp
qed

lemma decode_loop_bad_digits:
  "decode_loop (replicate 51 CHR ''1'' @ ''0'') 0 = (False, 78)"
proof -
  have one: "account_decode CHR ''1'' = 0"
    by (simp add: account_decode_def account_reverse_def)
  have z: "decode_loop (replicate k CHR ''1'') 0 = (False, 0)" for k
    by (induction k) (simp_all add: one)
  show ?thesis
    unfolding decode_loop_append z by (simp add: account_decode_def account_reverse_def)
qed

text \<open>
  Claim C5 (the part on symbols outside the alphabet). The character \<open>0\<close> is not
  a base-32 digit, yet for every digest function the account string of the key 78 still
  decodes, without error and to the key 78, after its digits \<open>4g\<close> are replaced
  by \<open>10\<close>: \<open>account_decode\<close> subtracts \<open>0x30\<close> from the
  table's marker \<open>~\<close>, so the comparison of its result with \<open>~\<close> in
  \<open>decode_account\<close> never holds, and the symbol enters the number as the value 78.
\<close>

theorem decode_account_accepts_invalid_symbol:
  "decode_account h ((encode_account h 78)[54 := CHR ''1'', 55 := CHR ''0'']) this = (False, 78)
   \<and> CHR ''0'' \<notin> set account_lookup"
proof -
  define c where "c = (ucast (h (bytes 78)) :: uint512_t)"
  define cks where "cks = rev (encode_loop 8 c)"
  have tb: "take_bit 40 c = c"
    unfolding c_def by (rule bit_word_eqI) (auto simp add: bit_simps dest: bit_imp_le_length)
  have "encode_account h 78 = ''chr_'' @ (replicate 50 CHR ''1'' @ ''4g'') @ cks"
    unfolding encode_account_split encode_loop_78 cks_def c_def ..
  moreover have "replicate 51 CHR ''1'' = replicate 50 CHR ''1'' @ ''1''"
  proof -
    have "(51 :: nat) = Suc 50" by simp
    then show ?thesis by (simp only: replicate_Suc replicate_append_same)
  qed
  ultimately have bad: "(encode_account h 78)[54 := CHR ''1'', 55 := CHR ''0'']
      = ''chr_'' @ (replicate 51 CHR ''1'' @ ''0'') @ cks"
    by (simp add: list_update_append)
  have len: "length cks = 8" by (simp add: cks_def length_encode_loop)
  have "decode_loop ((replicate 51 CHR ''1'' @ ''0'') @ cks) 0 = decode_loop cks 78"
    unfolding decode_loop_append [of "replicate 51 CHR ''1'' @ ''0''"] decode_loop_bad_digits by simp
  also have "\<dots> = (False, push_bit (5 * 8) 78 + take_bit (5 * 8) c)"
    unfolding cks_def by (rule decode_loop_rev_encode_loop)
  also have "push_bit (5 * 8) 78 + take_bit (5 * 8) c = push_bit 40 (ucast (78 :: uint256_t)) + c"
    using tb by simp
  also have "\<dots> = push_bit 40 (ucast (78 :: uint256_t)) OR ucast (ucast (h (bytes 78)) :: uint64_t)"
    unfolding c_def by (rule number_sum)
  finally have dec: "decode_loop ((replicate 51 CHR ''1'' @ ''0'') @ cks) 0
      = (False, push_bit 40 (ucast (78 :: uint256_t)) OR ucast (ucast (h (bytes 78)) :: uint64_t))" .
  define ds where "ds = (replicate 51 CHR ''1'' @ ''0'') @ cks"
  have first: "ds ! 0 = CHR ''1''"
    by (simp add: ds_def nth_append)
  have len_ds: "length ds = 60"
    by (simp add: ds_def len)
  have "decode_account h (''chr_'' @ ds) this = (False, 78)"
    unfolding decode_account_def
    using len_ds dec [folded ds_def] first number_parts(2,3) [of 78 "h (bytes 78)"]
    by (simp add: Let_def)
  then have "decode_account h (''chr_'' @ (replicate 51 CHR ''1'' @ ''0'') @ cks) this = (False, 78)"
    by (simp only: ds_def)
  moreover have "CHR ''0'' \<notin> set account_lookup"
    by (simp add: account_lookup_def)
  ultimately show ?thesis unfolding bad by (rule conjI)
qed

lemma decode_loop_alphabet_word:
  assumes "set ds \<subseteq> set account_lookup"
  shows "decode_loop ds m = (False, of_nat (unat m * 32 ^ length ds + base32_value ds))"
proof -
  have "decode_loop ds (of_nat (unat m))
      = (False, of_nat (foldl (\<lambda>n c. 32 * n + digit_value c) (unat m) ds))"
    using assms by (rule decode_loop_alphabet)
  then show ?thesis
    by (simp only: foldl_base32_shift of_nat_unat ucast_id)
qed

lemma low_bits_of_sum:
  assumes "C < 2 ^ 40"
  shows "unat (ucast ((of_nat (M * 2 ^ 40 + C) :: uint512_t) AND 0xffffffffff) :: uint64_t) = C"
proof -
  let ?w = "of_nat (M * 2 ^ 40 + C) :: uint512_t"
  have "?w AND 0xffffffffff = take_bit 40 ?w"
    using take_bit_eq_mask [of 40 ?w] by (simp add: mask_eq_exp_minus_1)
  also have "\<dots> = of_nat (take_bit 40 (M * 2 ^ 40 + C))"
    by (simp only: take_bit_of_nat)
  also have "take_bit 40 (M * 2 ^ 40 + C) = C"
    using assms by (simp add: take_bit_eq_mod)
  finally have "?w AND 0xffffffffff = of_nat C" .
  moreover have "C < 2 ^ 64" using assms by (rule less_le_trans) simp
  moreover have "C < 2 ^ 512" using assms by (rule less_le_trans) simp
  ultimately show ?thesis
    by (simp add: unsigned_of_nat take_bit_nat_eq_self)
qed

lemma accepted_checksum:
  fixes h :: "uint8_t list \<Rightarrow> 40 word"
  assumes alphabet: "set (drop (length s - 8) s) \<subseteq> set account_lookup"
    and accepted: "decode_account h s this = (False, k)"
  shows "base32_value (drop (length s - 8) s) = unat (h (bytes k))"
proof -
  define i where "i = drop (if s ! 0 = CHR ''c'' \<and> s ! 1 = CHR ''h'' \<and> s ! 2 = CHR ''r''
                          \<and> (s ! 3 = CHR ''_'' \<or> s ! 3 = CHR ''-'') then 4 else 5) s"
  from accepted have len: "length s = 64 \<or> length s = 65"
    by (auto simp add: decode_account_def Let_def split: if_splits)
  from accepted have len_i: "length i = 60"
    unfolding i_def by (auto simp add: decode_account_def Let_def split: if_splits)
  from accepted obtain number_l where dec: "decode_loop i 0 = (False, number_l)"
    and key: "k = ucast (drop_bit 40 number_l)"
    and chk: "(ucast (number_l AND 0xffffffffff) :: uint64_t) = ucast (h (bytes k))"
    unfolding i_def
    by (auto simp add: decode_account_def Let_def split: if_splits prod.splits bool.splits)
  define cs where "cs = drop 52 i"
  have cs: "cs = drop (length s - 8) s"
    using len len_i unfolding cs_def i_def by (auto split: if_splits)
  have len_cs: "length cs = 8" using len_i by (simp add: cs_def)
  have "decode_loop (take 52 i @ cs) 0 = (False, number_l)"
    using dec by (simp add: cs_def)
  then obtain m where "decode_loop cs m = (False, number_l)"
    by (auto simp add: decode_loop_append split: prod.splits bool.splits)
  moreover have "decode_loop cs m = (False, of_nat (unat m * 32 ^ length cs + base32_value cs))"
    using alphabet unfolding cs [symmetric] by (rule decode_loop_alphabet_word)
  ultimately have n: "number_l = of_nat (unat m * 2 ^ 40 + base32_value cs)"
    using len_cs by simp
  have "base32_value cs < 32 ^ length cs"
    using alphabet unfolding cs [symmetric] by (rule base32_value_bound)
  then have C: "base32_value cs < 2 ^ 40" using len_cs by simp
  have "unat (ucast (number_l AND 0xffffffffff) :: uint64_t) = base32_value cs"
    unfolding n using C by (rule low_bits_of_sum)
  moreover have "unat (ucast (h (bytes k)) :: uint64_t) = unat (h (bytes k))"
  proof -
    have "unat (h (bytes k)) < 2 ^ 40"
      using unsigned_less [of "h (bytes k)"] by simp
    then have "unat (h (bytes k)) < 2 ^ 64"
      by (rule less_le_trans) simp
    then show ?thesis
      by (simp add: unsigned_ucast_eq take_bit_nat_eq_self)
  qed
  ultimately show ?thesis
    using chk cs by simp
qed

lemma decode_loop_in_range:
  "decode_loop cs n = (False, m) \<Longrightarrow>
     \<forall>c \<in> set cs. \<not> (of_char c :: uint8_t) < 0x30 \<and> \<not> (of_char c :: uint8_t) \<ge> 0x80"
  by (induction cs arbitrary: n) (auto simp add: Let_def split: if_splits)

lemma split_prefix4:
  assumes "4 \<le> length s"
  obtains a b c d r where "s = a # b # c # d # r"
  using assms by (auto simp add: numeral_eq_Suc Suc_le_length_iff)

lemma split_prefix5:
  assumes "5 \<le> length s"
  obtains a b c d e r where "s = a # b # c # d # e # r"
  using assms by (auto simp add: numeral_eq_Suc Suc_le_length_iff)

text \<open>
  What \<open>decode_account\<close> does reject: a string is accepted only if it is one of the four
  prefixes followed by 60 characters, the first of them \<open>1\<close> or \<open>3\<close>, all of them
  bytes from 0x30 to 0x7f.
\<close>

lemma decode_account_accepted_shape:
  assumes "\<not> fst (decode_account h s this)"
  shows "\<exists>ds. length ds = 60
      \<and> (s = ''chr_'' @ ds \<or> s = ''chr-'' @ ds \<or> s = ''nano_'' @ ds \<or> s = ''nano-'' @ ds)
      \<and> (ds ! 0 = CHR ''1'' \<or> ds ! 0 = CHR ''3'')
      \<and> (\<forall>c \<in> set ds. \<not> (of_char c :: uint8_t) < 0x30 \<and> \<not> (of_char c :: uint8_t) \<ge> 0x80)"
proof -
  define chr_prefix where "chr_prefix \<longleftrightarrow> s ! 0 = CHR ''c'' \<and> s ! 1 = CHR ''h'' \<and> s ! 2 = CHR ''r''
      \<and> (s ! 3 = CHR ''_'' \<or> s ! 3 = CHR ''-'')"
  define nano_prefix where "nano_prefix \<longleftrightarrow> s ! 0 = CHR ''n'' \<and> s ! 1 = CHR ''a'' \<and> s ! 2 = CHR ''n''
      \<and> s ! 3 = CHR ''o'' \<and> (s ! 4 = CHR ''_'' \<or> s ! 4 = CHR ''-'')"
  define ds where "ds = drop (if chr_prefix then 4 else 5) s"
  from assms have len5: "5 \<le> length s"
    by (auto simp add: decode_account_def Let_def split: if_splits)
  from assms have pre: "chr_prefix \<or> nano_prefix"
    and len: "chr_prefix \<longrightarrow> length s = 64" "nano_prefix \<longrightarrow> length s = 65"
    and first: "ds ! 0 = CHR ''1'' \<or> ds ! 0 = CHR ''3''"
    and dec: "fst (decode_loop ds 0) = False"
    unfolding chr_prefix_def nano_prefix_def ds_def
    by (auto simp add: decode_account_def Let_def split: if_splits prod.splits bool.splits)
  from dec have range: "\<forall>c \<in> set ds. \<not> (of_char c :: uint8_t) < 0x30 \<and> \<not> (of_char c :: uint8_t) \<ge> 0x80"
    using decode_loop_in_range [of ds 0 "snd (decode_loop ds 0)"]
    by (cases "decode_loop ds 0") simp
  show ?thesis
  proof (cases chr_prefix)
    case True
    with len have l: "length s = 64" by simp
    then have "4 \<le> length s" by simp
    then obtain a b c d r where sd: "s = a # b # c # d # r" by (rule split_prefix4)
    from True have "a = CHR ''c''" "b = CHR ''h''" "c = CHR ''r''" "d = CHR ''_'' \<or> d = CHR ''-''"
      by (simp_all add: chr_prefix_def sd)
    moreover have "ds = r" using True by (simp add: ds_def sd)
    ultimately have "s = ''chr_'' @ ds \<or> s = ''chr-'' @ ds"
      by (auto simp add: sd)
    moreover have "length ds = 60" using True l by (simp add: ds_def)
    ultimately show ?thesis using first range by blast
  next
    case False
    with pre have n: nano_prefix by simp
    with len have l: "length s = 65" by simp
    then have "5 \<le> length s" by simp
    then obtain a b c d e r where sd: "s = a # b # c # d # e # r" by (rule split_prefix5)
    from n have "a = CHR ''n''" "b = CHR ''a''" "c = CHR ''n''" "d = CHR ''o''"
      "e = CHR ''_'' \<or> e = CHR ''-''"
      by (simp_all add: nano_prefix_def sd)
    moreover have "ds = r" using False by (simp add: ds_def sd)
    ultimately have "s = ''nano_'' @ ds \<or> s = ''nano-'' @ ds"
      by (auto simp add: sd)
    moreover have "length ds = 60" using False l by (simp add: ds_def)
    ultimately show ?thesis using first range by blast
  qed
qed

text \<open>
  Claim C4. For every 256-bit key \<open>a\<close> (and every digest function standing for
  Blake2b with a 5-byte output), decoding \<open>encode_account a\<close> reports no error and
  yields \<open>a\<close>; and decoding fails for every string whose last 8 characters are base-32
  digits that do not denote the digest of the bytes of the decoded key.
\<close>

theorem account_encode_decode_roundtrip:
  fixes h :: "uint8_t list \<Rightarrow> 40 word"
  shows "decode_account h (encode_account h a) this = (False, a)
    \<and> (set (drop (length s - 8) s) \<subseteq> set account_lookup
         \<and> base32_value (drop (length s - 8) s)
             \<noteq> unat (h (bytes (snd (decode_account h s that))))
       \<longrightarrow> fst (decode_account h s that))"
  using encode_decode_roundtrip [of h a this]
    accepted_checksum [of s h that "snd (decode_account h s that)"]
  by (cases "decode_account h s that") auto

theorem account_encode_decode_roundtrip_witness:
  "decode_account (\<lambda>_. 0) (encode_account (\<lambda>_. 0) 78) 0 = (False, 78)
    \<and> base32_value ''11111113'' = 1
    \<and> fst (decode_account (\<lambda>_. 0)
          ''chr_111111111111111111111111111111111111111111111111111111111113'' 0)"
  using account_encode_decode_roundtrip
    [of "\<lambda>_. 0" 78 0 "''chr_111111111111111111111111111111111111111111111111111111111113''" 0]
  by (simp add: base32_value_def digit_value_def account_lookup_def)

section \<open>Properties of the elections and of the vote processor\<close>

lemma map_of_assign:
  "map_of (assign k v m) k' = (if k' = k then Some v else map_of m k')"
  by (induction m) auto

lemma confirm_once_last_votes:
  "confirm_once e = (e', evs) \<Longrightarrow> last_votes e' = last_votes e \<and> blocks e' = blocks e"
  by (auto simp add: confirm_once_def split: if_splits)

lemma confirm_if_quorum_last_votes:
  assumes "confirm_if_quorum n e = Some (e', evs)"
  shows "last_votes e' = last_votes e \<and> blocks e' = blocks e"
  using assms
  by (auto simp add: confirm_if_quorum_def Let_def confirm_once_def
      split: prod.splits list.splits if_splits)

text \<open>The ways a call of \<open>election::vote\<close> that returns can end.\<close>

lemma election_vote_cases:
  assumes "election_vote n e rep s h = Some (r, e', evs)"
  obtains
    (ignored) "chratos_network n \<noteq> chratos_test_network" "\<not> ledger_weight n rep > online_stake n div 1000"
      "e' = e" "evs = []" "r = \<lparr> replay = False, processed = False \<rparr>"
  | (stored) "chratos_network n = chratos_test_network \<or> ledger_weight n rep > online_stake n div 1000"
      "last_votes e' = assign rep \<lparr> vi_time = now n, vi_sequence = s, vi_hash = h \<rparr> (last_votes e)"
      "blocks e' = blocks e"
      "r = \<lparr> replay = False, processed = False \<rparr>"
      "(confirmed e \<and> evs = []
          \<and> e' = e\<lparr> last_votes := assign rep \<lparr> vi_time = now n, vi_sequence = s, vi_hash = h \<rparr> (last_votes e) \<rparr>)
        \<or> (\<not> confirmed e
          \<and> confirm_if_quorum n
               (e\<lparr> last_votes := assign rep \<lparr> vi_time = now n, vi_sequence = s, vi_hash = h \<rparr> (last_votes e) \<rparr>)
              = Some (e', evs))"
      "case map_of (last_votes e) rep of
         None \<Rightarrow> True
       | Some lv \<Rightarrow> (vi_sequence lv < s \<or> (vi_sequence lv = s \<and> vi_hash lv < h))
           \<and> vi_time lv \<le> now n - vote_cooldown (ledger_weight n rep) (online_stake n) * 1000000000"
  | (dropped) lv where "chratos_network n = chratos_test_network \<or> ledger_weight n rep > online_stake n div 1000"
      "map_of (last_votes e) rep = Some lv"
      "vi_sequence lv < s \<or> (vi_sequence lv = s \<and> vi_hash lv < h)"
      "\<not> vi_time lv \<le> now n - vote_cooldown (ledger_weight n rep) (online_stake n) * 1000000000"
      "e' = e" "evs = []" "r = \<lparr> replay = False, processed = False \<rparr>"
  | (replayed) lv where "chratos_network n = chratos_test_network \<or> ledger_weight n rep > online_stake n div 1000"
      "map_of (last_votes e) rep = Some lv"
      "\<not> (vi_sequence lv < s \<or> (vi_sequence lv = s \<and> vi_hash lv < h))"
      "e' = e" "evs = []" "r = \<lparr> replay = True, processed = False \<rparr>"
proof (cases "chratos_network n = chratos_test_network \<or> ledger_weight n rep > online_stake n div 1000")
  case False
  with assms show ?thesis
    by (intro ignored) (auto simp add: election_vote_def Let_def)
next
  case gate: True
  show ?thesis
  proof (cases "map_of (last_votes e) rep")
    case None
    let ?e1 = "e\<lparr> last_votes := assign rep \<lparr> vi_time = now n, vi_sequence = s, vi_hash = h \<rparr> (last_votes e) \<rparr>"
    from assms gate None have
      "(if \<not> confirmed ?e1 then
          (case confirm_if_quorum n ?e1 of None \<Rightarrow> None
           | Some (e2, events) \<Rightarrow> Some (\<lparr> replay = False, processed = False \<rparr>, e2, events))
        else Some (\<lparr> replay = False, processed = False \<rparr>, ?e1, [])) = Some (r, e', evs)"
      by (simp add: election_vote_def Let_def)
    then have "last_votes e' = last_votes ?e1 \<and> blocks e' = blocks ?e1 \<and> r = \<lparr> replay = False, processed = False \<rparr>
        \<and> ((confirmed e \<and> evs = [] \<and> e' = ?e1) \<or> (\<not> confirmed e \<and> confirm_if_quorum n ?e1 = Some (e', evs)))"
      by (auto split: if_splits option.splits dest: confirm_if_quorum_last_votes)
    with gate None show ?thesis
      by (intro stored) simp_all
  next
    case (Some lv)
    show ?thesis
    proof (cases "vi_sequence lv < s \<or> (vi_sequence lv = s \<and> vi_hash lv < h)")
      case False
      with assms gate Some show ?thesis
        by (intro replayed [of lv]) (auto simp add: election_vote_def Let_def)
    next
      case greater: True
      show ?thesis
      proof (cases "vi_time lv \<le> now n - vote_cooldown (ledger_weight n rep) (online_stake n) * 1000000000")
        case False
        with assms gate Some greater show ?thesis
          by (intro dropped [of lv]) (auto simp add: election_vote_def Let_def)
      next
        case old: True
        let ?e1 = "e\<lparr> last_votes := assign rep \<lparr> vi_time = now n, vi_sequence = s, vi_hash = h \<rparr> (last_votes e) \<rparr>"
        from assms gate Some greater old have
          "(if \<not> confirmed ?e1 then
              (case confirm_if_quorum n ?e1 of None \<Rightarrow> None
               | Some (e2, events) \<Rightarrow> Some (\<lparr> replay = False, processed = False \<rparr>, e2, events))
            else Some (\<lparr> replay = False, processed = False \<rparr>, ?e1, [])) = Some (r, e', evs)"
          by (auto simp add: election_vote_def Let_def)
        then have "last_votes e' = last_votes ?e1 \<and> blocks e' = blocks ?e1 \<and> r = \<lparr> replay = False, processed = False \<rparr>
            \<and> ((confirmed e \<and> evs = [] \<and> e' = ?e1) \<or> (\<not> confirmed e \<and> confirm_if_quorum n ?e1 = Some (e', evs)))"
          by (auto split: if_splits option.splits dest: confirm_if_quorum_last_votes)
        with gate Some greater old show ?thesis
          by (intro stored) simp_all
      qed
    qed
  qed
qed

lemma vote_less_le_trans: "vote_le a b \<Longrightarrow> vote_le b c \<Longrightarrow> vote_le a c"
  by (auto simp add: vote_le_def)

lemma vote_less_imp_le: "vote_less a b \<Longrightarrow> vote_le a b"
  by (auto simp add: vote_less_def vote_le_def)

lemma vote_le_refl: "vote_le a a"
  by (simp add: vote_le_def)

lemma election_vote_monotone:
  assumes "election_vote n e rep' s h = Some (r, e', evs)"
    and "map_of (last_votes e) rep = Some lv"
  shows "\<exists>lv'. map_of (last_votes e') rep = Some lv'
           \<and> vote_le (vi_sequence lv, vi_hash lv) (vi_sequence lv', vi_hash lv')"
  using assms(1)
proof (cases rule: election_vote_cases)
  case stored
  show ?thesis
  proof (cases "rep = rep'")
    case True
    with stored(6) assms(2) have "vote_less (vi_sequence lv, vi_hash lv) (s, h)"
      by (simp add: vote_less_def)
    with True stored(2) show ?thesis
      by (simp add: map_of_assign vote_less_imp_le)
  next
    case False
    with stored(2) assms(2) show ?thesis
      by (simp add: map_of_assign vote_le_refl)
  qed
qed (use assms(2) in \<open>simp_all add: vote_le_refl\<close>)

lemma election_votes_monotone:
  "election_votes e vs = Some (e', evs) \<Longrightarrow> map_of (last_votes e) rep = Some lv \<Longrightarrow>
     \<exists>lv'. map_of (last_votes e') rep = Some lv'
       \<and> vote_le (vi_sequence lv, vi_hash lv) (vi_sequence lv', vi_hash lv')"
proof (induction vs arbitrary: e evs lv)
  case Nil
  then show ?case by (auto simp add: vote_le_refl)
next
  case (Cons v vs)
  obtain n rep' s h where v: "v = (n, rep', s, h)" by (cases v) auto
  from Cons.prems(1) obtain r e1 ev1 ev2 where
    step: "election_vote n e rep' s h = Some (r, e1, ev1)"
    and rest: "election_votes e1 vs = Some (e', ev2)"
    by (auto simp add: v split: option.splits)
  from election_vote_monotone [OF step Cons.prems(2)] obtain lv1 where
    lv1: "map_of (last_votes e1) rep = Some lv1"
      "vote_le (vi_sequence lv, vi_hash lv) (vi_sequence lv1, vi_hash lv1)"
    by blast
  from Cons.IH [OF rest lv1(1)] obtain lv' where
    "map_of (last_votes e') rep = Some lv'"
    "vote_le (vi_sequence lv1, vi_hash lv1) (vi_sequence lv', vi_hash lv')"
    by blast
  with lv1(2) show ?case
    by (blast intro: vote_less_le_trans)
qed

lemma election_vote_stored:
  assumes "election_vote n e rep s h = Some (r, e', evs)"
    and "last_votes e' \<noteq> last_votes e"
  shows "map_of (last_votes e') rep = Some \<lparr> vi_time = now n, vi_sequence = s, vi_hash = h \<rparr>"
  using assms(1)
proof (cases rule: election_vote_cases)
  case stored
  then show ?thesis by (simp add: map_of_assign)
qed (use assms(2) in simp_all)

lemma election_vote_step:
  assumes "election_vote n e rep s h = Some (r, e', evs)"
    and "map_of (last_votes e) rep = Some lv"
    and "chratos_network n = chratos_test_network \<or> ledger_weight n rep > online_stake n div 1000"
  shows "(if vote_less (vi_sequence lv, vi_hash lv) (s, h)
             \<and> vi_time lv \<le> now n - vote_cooldown (ledger_weight n rep) (online_stake n) * 1000000000
          then map_of (last_votes e') rep = Some \<lparr> vi_time = now n, vi_sequence = s, vi_hash = h \<rparr>
          else last_votes e' = last_votes e)
       \<and> (\<not> vote_less (vi_sequence lv, vi_hash lv) (s, h) \<longrightarrow> replay r \<and> last_votes e' = last_votes e)"
  using assms(1)
proof (cases rule: election_vote_cases)
  case ignored
  with assms(3) show ?thesis by simp
next
  case stored
  from stored(2,6) assms(2) show ?thesis by (auto simp add: map_of_assign vote_less_def)
next
  case (dropped lv')
  with assms(2) show ?thesis by (auto simp add: vote_less_def)
next
  case (replayed lv')
  with assms(2) show ?thesis by (auto simp add: vote_less_def)
qed

text \<open>
  Claim C3, as the code has it. Provided the vote passes the weight test of
  \<open>election::vote\<close> (test network, or the representative's weight above a thousandth
  of the online stake), a vote offered against a stored one replaces it exactly when its
  (sequence, hash) is greater and the stored vote is at least the cooldown old; an equal or
  smaller vote is tagged as replay and nothing is stored. And whatever the weights: once a vote
  of a representative has been stored, the entry of that representative holds a (sequence,
  hash) at least as great after any further votes.
\<close>

theorem election_vote_supersedes:
  "(map_of (last_votes e) rep = Some lv
      \<and> (chratos_network n = chratos_test_network \<or> ledger_weight n rep > online_stake n div 1000)
      \<and> election_vote n e rep s h = Some (r, e', evs)
    \<longrightarrow> (if vote_less (vi_sequence lv, vi_hash lv) (s, h)
             \<and> vi_time lv \<le> now n - vote_cooldown (ledger_weight n rep) (online_stake n) * 1000000000
          then map_of (last_votes e') rep = Some \<lparr> vi_time = now n, vi_sequence = s, vi_hash = h \<rparr>
          else last_votes e' = last_votes e)
       \<and> (\<not> vote_less (vi_sequence lv, vi_hash lv) (s, h) \<longrightarrow> replay r \<and> last_votes e' = last_votes e))
   \<and> (election_vote m e1 rep1 s1 h1 = Some (r1, e2, evs2) \<and> last_votes e2 \<noteq> last_votes e1
      \<and> election_votes e2 later = Some (e3, evs3)
    \<longrightarrow> (\<exists>lv3. map_of (last_votes e3) rep1 = Some lv3
           \<and> vote_le (s1, h1) (vi_sequence lv3, vi_hash lv3)))"
proof -
  have step: "map_of (last_votes e) rep = Some lv
      \<and> (chratos_network n = chratos_test_network \<or> ledger_weight n rep > online_stake n div 1000)
      \<and> election_vote n e rep s h = Some (r, e', evs)
    \<longrightarrow> (if vote_less (vi_sequence lv, vi_hash lv) (s, h)
             \<and> vi_time lv \<le> now n - vote_cooldown (ledger_weight n rep) (online_stake n) * 1000000000
          then map_of (last_votes e') rep = Some \<lparr> vi_time = now n, vi_sequence = s, vi_hash = h \<rparr>
          else last_votes e' = last_votes e)
       \<and> (\<not> vote_less (vi_sequence lv, vi_hash lv) (s, h) \<longrightarrow> replay r \<and> last_votes e' = last_votes e)"
    using election_vote_step [of n e rep s h r e' evs lv] by blast
  have greatest: "election_vote m e1 rep1 s1 h1 = Some (r1, e2, evs2) \<and> last_votes e2 \<noteq> last_votes e1
      \<and> election_votes e2 later = Some (e3, evs3)
    \<longrightarrow> (\<exists>lv3. map_of (last_votes e3) rep1 = Some lv3
           \<and> vote_le (s1, h1) (vi_sequence lv3, vi_hash lv3))"
  proof
    assume b: "election_vote m e1 rep1 s1 h1 = Some (r1, e2, evs2) \<and> last_votes e2 \<noteq> last_votes e1
      \<and> election_votes e2 later = Some (e3, evs3)"
    then have "map_of (last_votes e2) rep1 = Some \<lparr> vi_time = now m, vi_sequence = s1, vi_hash = h1 \<rparr>"
      by (blast intro: election_vote_stored)
    from election_votes_monotone [OF _ this, of later e3 evs3] b
    show "\<exists>lv3. map_of (last_votes e3) rep1 = Some lv3 \<and> vote_le (s1, h1) (vi_sequence lv3, vi_hash lv3)"
      by simp
  qed
  from step greatest show ?thesis by (rule conjI)
qed

lemmas sample_defs =
  sample_node_def sample_election_def sample_block_def election_init_def not_an_account_def
  election_vote_def online_stake_def vote_cooldown_def confirm_if_quorum_def tally_def
  block_weights_add_def have_quorum_def delta_def confirm_once_def Let_def

lemma sample_vote_stored:
  "election_vote (sample_node chratos_test_network 150 60 20000000000) sample_election 7 2 5 =
     Some (\<lparr> replay = False, processed = False \<rparr>,
       sample_election
         \<lparr> status_tally := 60, confirmed := True,
           last_votes := [(0, \<lparr> vi_time = 0, vi_sequence = 0, vi_hash = 5 \<rparr>),
                          (7, \<lparr> vi_time = 20000000000, vi_sequence = 2, vi_hash = 5 \<rparr>)],
           last_tally := [(5, 60)] \<rparr>,
       [Process_confirmed sample_block])"
  by (simp add: sample_defs)

lemma sample_vote_replayed:
  "election_vote (sample_node chratos_test_network 150 60 50000000000)
     (sample_election
         \<lparr> status_tally := 60, confirmed := True,
           last_votes := [(0, \<lparr> vi_time = 0, vi_sequence = 0, vi_hash = 5 \<rparr>),
                          (7, \<lparr> vi_time = 20000000000, vi_sequence = 2, vi_hash = 5 \<rparr>)],
           last_tally := [(5, 60)] \<rparr>) 7 1 5 =
     Some (\<lparr> replay = True, processed = False \<rparr>,
       sample_election
         \<lparr> status_tally := 60, confirmed := True,
           last_votes := [(0, \<lparr> vi_time = 0, vi_sequence = 0, vi_hash = 5 \<rparr>),
                          (7, \<lparr> vi_time = 20000000000, vi_sequence = 2, vi_hash = 5 \<rparr>)],
           last_tally := [(5, 60)] \<rparr>,
       [])"
  by (simp add: sample_defs)

theorem election_vote_supersedes_witness:
  "map_of (last_votes sample_election) 7 = Some \<lparr> vi_time = 0, vi_sequence = 1, vi_hash = 5 \<rparr>
   \<and> chratos_network (sample_node chratos_test_network 150 60 20000000000) = chratos_test_network
   \<and> vote_less (1, 5) (2, 5)
   \<and> map_of (last_votes (sample_election
         \<lparr> status_tally := 60, confirmed := True,
           last_votes := [(0, \<lparr> vi_time = 0, vi_sequence = 0, vi_hash = 5 \<rparr>),
                          (7, \<lparr> vi_time = 20000000000, vi_sequence = 2, vi_hash = 5 \<rparr>)],
           last_tally := [(5, 60)] \<rparr>)) 7
       = Some \<lparr> vi_time = 20000000000, vi_sequence = 2, vi_hash = 5 \<rparr>
   \<and> vote_le (2, 5) (2, 5)"
  using election_vote_supersedes
    [of sample_election 7 "\<lparr> vi_time = 0, vi_sequence = 1, vi_hash = 5 \<rparr>"
        "sample_node chratos_test_network 150 60 20000000000" 2 5
        "\<lparr> replay = False, processed = False \<rparr>"
        "sample_election
         \<lparr> status_tally := 60, confirmed := True,
           last_votes := [(0, \<lparr> vi_time = 0, vi_sequence = 0, vi_hash = 5 \<rparr>),
                          (7, \<lparr> vi_time = 20000000000, vi_sequence = 2, vi_hash = 5 \<rparr>)],
           last_tally := [(5, 60)] \<rparr>"
        "[Process_confirmed sample_block]"
        "sample_node chratos_test_network 150 60 20000000000" sample_election 7 2 5
        "\<lparr> replay = False, processed = False \<rparr>"
        "sample_election
         \<lparr> status_tally := 60, confirmed := True,
           last_votes := [(0, \<lparr> vi_time = 0, vi_sequence = 0, vi_hash = 5 \<rparr>),
                          (7, \<lparr> vi_time = 20000000000, vi_sequence = 2, vi_hash = 5 \<rparr>)],
           last_tally := [(5, 60)] \<rparr>"
        "[Process_confirmed sample_block]"
        "[(sample_node chratos_test_network 150 60 50000000000, 7, 1, 5)]"
        "sample_election
         \<lparr> status_tally := 60, confirmed := True,
           last_votes := [(0, \<lparr> vi_time = 0, vi_sequence = 0, vi_hash = 5 \<rparr>),
                          (7, \<lparr> vi_time = 20000000000, vi_sequence = 2, vi_hash = 5 \<rparr>)],
           last_tally := [(5, 60)] \<rparr>"
        "[]"]
    sample_vote_stored sample_vote_replayed
  by (simp add: vote_less_def vote_le_def sample_election_def sample_node_def election_init_def)

text \<open>
  Claim C3 as it is written fails on a network other than the test network for a
  representative without weight: a greater vote against a stored vote that is 20 seconds old
  is not stored, and a smaller vote is not tagged as replay.
\<close>

theorem election_vote_supersedes_counterexample:
  "map_of (last_votes sample_election) 7 = Some \<lparr> vi_time = 0, vi_sequence = 1, vi_hash = 5 \<rparr>
   \<and> vote_less (1, 5) (2, 5)
   \<and> (0 :: int) \<le> 20000000000 - 15 * 1000000000
   \<and> election_vote (sample_node chratos_live_network 150 0 20000000000) sample_election 7 2 5
       = Some (\<lparr> replay = False, processed = False \<rparr>, sample_election, [])
   \<and> \<not> vote_less (1, 5) (0, 5)
   \<and> election_vote (sample_node chratos_live_network 150 0 20000000000) sample_election 7 0 5
       = Some (\<lparr> replay = False, processed = False \<rparr>, sample_election, [])"
  by (simp add: sample_defs vote_less_def)

text \<open>
  Claim C10. A vote that is greater than the stored one but arrives before the stored vote is
  a cooldown old is dropped: the call returns (replay = false, processed = false) and the
  election is unchanged. So is, on a network other than the test network, every vote of a
  representative whose weight is at most a thousandth of the online stake.
\<close>

theorem election_vote_silently_dropped:
  "(map_of (last_votes e) rep = Some last_vote
      \<and> (chratos_network n = chratos_test_network \<or> ledger_weight n rep > online_stake n div 1000)
      \<and> vote_less (vi_sequence last_vote, vi_hash last_vote) (s, h)
      \<and> \<not> vi_time last_vote \<le> now n - vote_cooldown (ledger_weight n rep) (online_stake n) * 1000000000
    \<longrightarrow> election_vote n e rep s h = Some (\<lparr> replay = False, processed = False \<rparr>, e, []))
   \<and> (chratos_network m \<noteq> chratos_test_network \<and> ledger_weight m rep1 \<le> online_stake m div 1000
    \<longrightarrow> election_vote m e1 rep1 s1 h1 = Some (\<lparr> replay = False, processed = False \<rparr>, e1, []))"
  by (auto simp add: election_vote_def Let_def vote_less_def)

theorem election_vote_silently_dropped_witness:
  "map_of (last_votes sample_election) 7 = Some \<lparr> vi_time = 0, vi_sequence = 1, vi_hash = 5 \<rparr>
   \<and> chratos_network (sample_node chratos_test_network 150 60 500000000) = chratos_test_network
   \<and> vote_less (1, 5) (2, 5)
   \<and> vote_cooldown 60 150 = 1
   \<and> election_vote (sample_node chratos_test_network 150 60 500000000) sample_election 7 2 5
       = Some (\<lparr> replay = False, processed = False \<rparr>, sample_election, [])
   \<and> chratos_network (sample_node chratos_live_network 150000 150 0) \<noteq> chratos_test_network
   \<and> online_stake (sample_node chratos_live_network 150000 150 0) div 1000 = 150
   \<and> election_vote (sample_node chratos_live_network 150000 150 0) sample_election 7 2 5
       = Some (\<lparr> replay = False, processed = False \<rparr>, sample_election, [])"
  using election_vote_silently_dropped
    [of sample_election 7 "\<lparr> vi_time = 0, vi_sequence = 1, vi_hash = 5 \<rparr>"
        "sample_node chratos_test_network 150 60 500000000" 2 5
        "sample_node chratos_live_network 150000 150 0" 7 sample_election 2 5]
  by (simp add: vote_less_def vote_cooldown_def online_stake_def sample_election_def sample_node_def
      election_init_def)

lemma tally_cong:
  "last_votes e' = last_votes e \<Longrightarrow> blocks e' = blocks e \<Longrightarrow> tally n e' = tally n e"
  by (simp add: tally_def)

lemma confirm_if_quorum_confirmed:
  assumes "confirm_if_quorum n e = Some (e', evs)"
  shows "confirmed e' = (confirmed e \<or> have_quorum n (snd (tally n e)))"
    and "length (filter is_process_confirmed evs)
          = (if \<not> confirmed e \<and> have_quorum n (snd (tally n e)) then 1 else 0)"
  using assms
  by (auto simp add: confirm_if_quorum_def Let_def confirm_once_def
      split: prod.splits list.splits if_splits)

lemma election_vote_confirmed:
  assumes "election_vote n e rep s h = Some (r, e', evs)"
  shows "(confirmed e \<longrightarrow> confirmed e' \<and> filter is_process_confirmed evs = [])
    \<and> (\<not> confirmed e \<and> confirmed e' \<longrightarrow> have_quorum n (snd (tally n e')))
    \<and> (\<not> confirmed e' \<longrightarrow> filter is_process_confirmed evs = [])
    \<and> length (filter is_process_confirmed evs) \<le> (if confirmed e then 0 else 1)"
  using assms
proof (cases rule: election_vote_cases)
  case stored
  let ?e1 = "e\<lparr> last_votes := assign rep \<lparr> vi_time = now n, vi_sequence = s, vi_hash = h \<rparr> (last_votes e) \<rparr>"
  have t: "tally n e' = tally n ?e1"
    using stored(2,3) by (intro tally_cong) simp_all
  from stored(5) show ?thesis
  proof
    assume "confirmed e \<and> evs = [] \<and> e' = ?e1"
    then show ?thesis by simp
  next
    assume q: "\<not> confirmed e \<and> confirm_if_quorum n ?e1 = Some (e', evs)"
    then have "confirmed e' = have_quorum n (snd (tally n ?e1))"
      and "length (filter is_process_confirmed evs) = (if have_quorum n (snd (tally n ?e1)) then 1 else 0)"
      using confirm_if_quorum_confirmed [of n ?e1 e' evs] by simp_all
    with q t show ?thesis by (auto split: if_splits)
  qed
qed simp_all

lemma election_votes_confirmed:
  "election_votes e vs = Some (e', evs) \<Longrightarrow>
     (confirmed e \<longrightarrow> confirmed e')
     \<and> length (filter is_process_confirmed evs) \<le> (if confirmed e then 0 else 1)"
proof (induction vs arbitrary: e evs)
  case Nil
  then show ?case by auto
next
  case (Cons v vs)
  obtain n rep s h where v: "v = (n, rep, s, h)" by (cases v) auto
  from Cons.prems obtain r e1 ev1 ev2 where
    step: "election_vote n e rep s h = Some (r, e1, ev1)"
    and rest: "election_votes e1 vs = Some (e', ev2)"
    and evs: "evs = ev1 @ ev2"
    by (auto simp add: v split: option.splits)
  note a = election_vote_confirmed [OF step]
  note b = Cons.IH [OF rest]
  show ?case
  proof (cases "confirmed e1")
    case True
    with a b evs show ?thesis by (auto split: if_splits)
  next
    case False
    with a have "filter is_process_confirmed ev1 = []" and "\<not> confirmed e" by auto
    with b evs False show ?thesis by (auto split: if_splits)
  qed
qed

text \<open>
  Claim C2, as the code has it. When a vote takes an election from unconfirmed to confirmed,
  the tally of the election then has a first weight greater than the second (0 when there is
  none) plus delta, in 128-bit arithmetic, where delta is the online stake divided by 100 and
  then multiplied by the quorum percentage. Over any sequence of votes the flag, once set,
  stays set, and the confirmation is queued at most once.
\<close>

theorem election_confirmed_has_quorum:
  "(election_vote n e rep s h = Some (r, e', evs) \<and> \<not> confirmed e \<and> confirmed e'
    \<longrightarrow> (\<exists>first rest. snd (tally n e') = first # rest
          \<and> fst first > (case rest of [] \<Rightarrow> 0 | second # _ \<Rightarrow> fst second)
                + (online_stake n div 100) * ucast (online_weight_quorum n)))
   \<and> (election_votes e1 vs = Some (e2, evs2)
    \<longrightarrow> (confirmed e1 \<longrightarrow> confirmed e2) \<and> length (filter is_process_confirmed evs2) \<le> 1)"
proof -
  have quorum: "election_vote n e rep s h = Some (r, e', evs) \<and> \<not> confirmed e \<and> confirmed e'
    \<longrightarrow> (\<exists>first rest. snd (tally n e') = first # rest
          \<and> fst first > (case rest of [] \<Rightarrow> 0 | second # _ \<Rightarrow> fst second)
                + (online_stake n div 100) * ucast (online_weight_quorum n))"
  proof
    assume a: "election_vote n e rep s h = Some (r, e', evs) \<and> \<not> confirmed e \<and> confirmed e'"
    then have "have_quorum n (snd (tally n e'))"
      using election_vote_confirmed [of n e rep s h r e' evs] by blast
    then show "\<exists>first rest. snd (tally n e') = first # rest
          \<and> fst first > (case rest of [] \<Rightarrow> 0 | second # _ \<Rightarrow> fst second)
                + (online_stake n div 100) * ucast (online_weight_quorum n)"
      by (cases "snd (tally n e')") (simp_all add: have_quorum_def delta_def Let_def)
  qed
  have once: "election_votes e1 vs = Some (e2, evs2)
    \<longrightarrow> (confirmed e1 \<longrightarrow> confirmed e2) \<and> length (filter is_process_confirmed evs2) \<le> 1"
    using election_votes_confirmed [of e1 vs e2 evs2] by (auto split: if_splits)
  from quorum once show ?thesis by (rule conjI)
qed

lemma sample_vote_confirms:
  "election_vote (sample_node chratos_live_network 150 60 0) (election_init (sample_node chratos_live_network 150 60 0) sample_block) 7 1 5 =
     Some (\<lparr> replay = False, processed = False \<rparr>,
       (election_init (sample_node chratos_live_network 150 60 0) sample_block)
         \<lparr> status_tally := 60, confirmed := True,
           last_votes := [(0, \<lparr> vi_time = 0, vi_sequence = 0, vi_hash = 5 \<rparr>),
                          (7, \<lparr> vi_time = 0, vi_sequence = 1, vi_hash = 5 \<rparr>)],
           last_tally := [(5, 60)] \<rparr>,
       [Process_confirmed sample_block])"
  by (simp add: sample_defs)

lemma sample_votes_run:
  "election_votes sample_election
     [(sample_node chratos_test_network 150 60 20000000000, 7, 2, 5), (sample_node chratos_test_network 150 60 50000000000, 7, 1, 5)] =
     Some (sample_election
         \<lparr> status_tally := 60, confirmed := True,
           last_votes := [(0, \<lparr> vi_time = 0, vi_sequence = 0, vi_hash = 5 \<rparr>),
                          (7, \<lparr> vi_time = 20000000000, vi_sequence = 2, vi_hash = 5 \<rparr>)],
           last_tally := [(5, 60)] \<rparr>,
       [Process_confirmed sample_block])"
  by (simp add: sample_vote_stored sample_vote_replayed)

lemma sample_tally:
  "snd (tally (sample_node chratos_live_network 150 60 0)
     ((election_init (sample_node chratos_live_network 150 60 0) sample_block)
         \<lparr> status_tally := 60, confirmed := True,
           last_votes := [(0, \<lparr> vi_time = 0, vi_sequence = 0, vi_hash = 5 \<rparr>),
                          (7, \<lparr> vi_time = 0, vi_sequence = 1, vi_hash = 5 \<rparr>)],
           last_tally := [(5, 60)] \<rparr>)) = [(60, sample_block)]"
  by (simp add: sample_defs)

theorem election_confirmed_has_quorum_witness:
  "\<not> confirmed (election_init (sample_node chratos_live_network 150 60 0) sample_block)
   \<and> snd (tally (sample_node chratos_live_network 150 60 0)
     ((election_init (sample_node chratos_live_network 150 60 0) sample_block)
         \<lparr> status_tally := 60, confirmed := True,
           last_votes := [(0, \<lparr> vi_time = 0, vi_sequence = 0, vi_hash = 5 \<rparr>),
                          (7, \<lparr> vi_time = 0, vi_sequence = 1, vi_hash = 5 \<rparr>)],
           last_tally := [(5, 60)] \<rparr>)) = [(60, sample_block)]
   \<and> (60 :: uint128_t) > 0 + (150 div 100) * 50
   \<and> length (filter is_process_confirmed [Process_confirmed sample_block]) \<le> 1"
  using election_confirmed_has_quorum
    [of "sample_node chratos_live_network 150 60 0" "election_init (sample_node chratos_live_network 150 60 0) sample_block" 7 1 5
        "\<lparr> replay = False, processed = False \<rparr>"
        "(election_init (sample_node chratos_live_network 150 60 0) sample_block)
         \<lparr> status_tally := 60, confirmed := True,
           last_votes := [(0, \<lparr> vi_time = 0, vi_sequence = 0, vi_hash = 5 \<rparr>),
                          (7, \<lparr> vi_time = 0, vi_sequence = 1, vi_hash = 5 \<rparr>)],
           last_tally := [(5, 60)] \<rparr>"
        "[Process_confirmed sample_block]"
        sample_election
        "[(sample_node chratos_test_network 150 60 20000000000, 7, 2, 5), (sample_node chratos_test_network 150 60 50000000000, 7, 1, 5)]"
        "sample_election
         \<lparr> status_tally := 60, confirmed := True,
           last_votes := [(0, \<lparr> vi_time = 0, vi_sequence = 0, vi_hash = 5 \<rparr>),
                          (7, \<lparr> vi_time = 20000000000, vi_sequence = 2, vi_hash = 5 \<rparr>)],
           last_tally := [(5, 60)] \<rparr>"
        "[Process_confirmed sample_block]"]
    sample_vote_confirms sample_votes_run sample_tally
  by (simp add: election_init_def)

text \<open>
  Claim C2 as it is written, with delta = online stake times quorum, divided by 100: with an
  online stake of 150 and a quorum of 50 that is 75, and an election is confirmed on a tally
  of 60 against no second candidate, because the code's delta is (150 / 100) * 50 = 50.
\<close>

theorem election_confirmed_has_quorum_counterexample:
  "election_vote (sample_node chratos_live_network 150 60 0) (election_init (sample_node chratos_live_network 150 60 0) sample_block) 7 1 5 =
     Some (\<lparr> replay = False, processed = False \<rparr>,
       (election_init (sample_node chratos_live_network 150 60 0) sample_block)
         \<lparr> status_tally := 60, confirmed := True,
           last_votes := [(0, \<lparr> vi_time = 0, vi_sequence = 0, vi_hash = 5 \<rparr>),
                          (7, \<lparr> vi_time = 0, vi_sequence = 1, vi_hash = 5 \<rparr>)],
           last_tally := [(5, 60)] \<rparr>,
       [Process_confirmed sample_block])
   \<and> \<not> confirmed (election_init (sample_node chratos_live_network 150 60 0) sample_block)
   \<and> snd (tally (sample_node chratos_live_network 150 60 0)
     ((election_init (sample_node chratos_live_network 150 60 0) sample_block)
         \<lparr> status_tally := 60, confirmed := True,
           last_votes := [(0, \<lparr> vi_time = 0, vi_sequence = 0, vi_hash = 5 \<rparr>),
                          (7, \<lparr> vi_time = 0, vi_sequence = 1, vi_hash = 5 \<rparr>)],
           last_tally := [(5, 60)] \<rparr>)) = [(60, sample_block)]
   \<and> unat (online_stake (sample_node chratos_live_network 150 60 0)) = 150
   \<and> unat (online_weight_quorum (sample_node chratos_live_network 150 60 0)) = 50
   \<and> \<not> (60 :: nat) > 0 + 150 * 50 div 100"
  using sample_vote_confirms sample_tally
  by (simp add: election_init_def online_stake_def sample_node_def)

lemma vote_blocking_cases:
  "(validate v \<longrightarrow> vote_blocking validate vote_max n a v = Some (Invalid, a, []))
   \<and> (\<not> validate v \<and> active_vote n a v = None \<longrightarrow> vote_blocking validate vote_max n a v = None)
   \<and> (\<not> validate v \<and> active_vote n a v = Some (replay_l, a1, events)
      \<longrightarrow> (\<exists>code. (code = Vote \<or> code = Replay)
            \<and> vote_blocking validate vote_max n a v =
                Some (code, a1,
                  events @ (if code = Vote then [Notify_vote v] else [])
                    @ (if sequence (vote_max v) > sequence v + 10000 then [Confirm_send (vote_max v)] else []))))
   \<and> (\<not> validate v \<and> \<not> sequence v < sequence (vote_max v)
        \<and> active_vote n a v = Some (replay_l, a1, events)
      \<longrightarrow> vote_blocking validate vote_max n a v =
            Some (if replay_l then Replay else Vote, a1,
              events @ (if replay_l then [] else [Notify_vote v])
                @ (if sequence (vote_max v) > sequence v + 10000 then [Confirm_send (vote_max v)] else [])))"
  by (simp add: vote_blocking_def Let_def)

lemma active_vote_no_elections:
  "active_vote n no_elections v = Some (False, no_elections, [])"
proof -
  have "active_vote_loop n v bs rp pr no_elections = Some (rp, pr, no_elections, [])" for bs rp pr
  proof (induction bs arbitrary: rp pr)
    case Nil
    show ?case by simp
  next
    case (Cons b bs)
    have "active_vote_block n v b no_elections
        = Some (\<lparr> replay = False, processed = False \<rparr>, no_elections, [])"
      by (cases b) (simp_all add: active_vote_block_def no_elections_def)
    with Cons show ?case by simp
  qed
  then show ?thesis by (simp add: active_vote_def)
qed

lemma sample_active_vote:
  "active_vote (sample_node chratos_test_network 150 60 50000000000) sample_active (sample_vote 1)
     = Some (True, sample_active, [])"
proof -
  have replayed: "election_vote (sample_node chratos_test_network 150 60 50000000000) sample_election 7 1 5
      = Some (\<lparr> replay = True, processed = False \<rparr>, sample_election, [])"
    by (simp add: sample_defs)
  have "active_vote_block (sample_node chratos_test_network 150 60 50000000000) (sample_vote 1) (Vote_hash 5) sample_active
      = Some (\<lparr> replay = True, processed = False \<rparr>, sample_active, [])"
    by (simp add: active_vote_block_def sample_active_def sample_vote_def replayed)
  then show ?thesis
    by (simp add: active_vote_def sample_vote_def)
qed

lemma stray_active_vote:
  "active_vote (sample_node chratos_test_network 150 60 50000000000) fresh_active stray_vote = None"
  by (simp add: active_vote_def active_vote_block_def fresh_active_def stray_vote_def sample_defs)

lemma second_election_vote:
  "election_vote (sample_node chratos_test_network 150 40 50000000000)
       (election_init (sample_node chratos_test_network 150 40 0) second_block) 7 1 6
     = Some (\<lparr> replay = False, processed = False \<rparr>, second_election_voted, [])"
  by (simp add: second_election_voted_def second_block_def sample_defs)

lemma two_elections_active_vote:
  "active_vote (sample_node chratos_test_network 150 40 50000000000) two_elections sample_vote_two
     = Some (True, two_elections_voted, [])"
  by (simp add: active_vote_def active_vote_block_def two_elections_def two_elections_voted_def
      second_election_voted_def sample_vote_two_def second_block_def sample_defs)

text \<open>
  Claim C1, as the code has it. A vote whose validation fails is \<open>invalid\<close> and
  nothing else happens. Every valid vote is handed to the active elections, whatever the
  stored maximum is: the elections after the call and what they emitted are those of
  \<open>active_transactions::vote\<close>, a failed assertion there is a failed assertion of the
  call, and the result is \<open>vote\<close> or \<open>replay\<close>, the observers being notified on
  \<open>vote\<close>. When the sequence of the stored maximum is not above the vote's, the result is
  \<open>replay\<close> if an election tagged the vote as a replay, and \<open>vote\<close> otherwise,
  which includes the case that no election took the vote.
\<close>

theorem vote_blocking_result:
  "(validate v \<longrightarrow> vote_blocking validate vote_max n a v = Some (Invalid, a, []))
   \<and> (\<not> validate v \<and> active_vote n a v = None \<longrightarrow> vote_blocking validate vote_max n a v = None)
   \<and> (\<not> validate v \<and> active_vote n a v = Some (replay_l, a1, events)
      \<longrightarrow> (\<exists>code. (code = Vote \<or> code = Replay)
            \<and> vote_blocking validate vote_max n a v =
                Some (code, a1,
                  events @ (if code = Vote then [Notify_vote v] else [])
                    @ (if sequence (vote_max v) > sequence v + 10000 then [Confirm_send (vote_max v)] else []))))
   \<and> (\<not> validate v \<and> \<not> sequence v < sequence (vote_max v)
        \<and> active_vote n a v = Some (replay_l, a1, events)
      \<longrightarrow> vote_blocking validate vote_max n a v =
            Some (if replay_l then Replay else Vote, a1,
              events @ (if replay_l then [] else [Notify_vote v])
                @ (if sequence (vote_max v) > sequence v + 10000 then [Confirm_send (vote_max v)] else [])))
   \<and> (\<not> validate v \<and> \<not> sequence v < sequence (vote_max v)
      \<longrightarrow> vote_blocking validate vote_max n no_elections v =
            Some (Vote, no_elections,
              Notify_vote v
                # (if sequence (vote_max v) > sequence v + 10000 then [Confirm_send (vote_max v)] else [])))"
  using vote_blocking_cases [of validate v vote_max n a replay_l a1 events]
    vote_blocking_cases [of validate v vote_max n no_elections False no_elections "[]"]
    active_vote_no_elections [of n v]
  by simp

theorem vote_blocking_result_witness:
  "sample_validate (sample_vote 0)
   \<and> vote_blocking sample_validate sample_vote_max (sample_node chratos_test_network 150 60 50000000000) sample_active
         (sample_vote 0) = Some (Invalid, sample_active, [])
   \<and> \<not> sample_validate stray_vote
   \<and> active_vote (sample_node chratos_test_network 150 60 50000000000) fresh_active stray_vote = None
   \<and> vote_blocking sample_validate sample_vote_max (sample_node chratos_test_network 150 60 50000000000) fresh_active
         stray_vote = None
   \<and> \<not> sample_validate sample_vote_two
   \<and> sequence sample_vote_two < sequence (sample_stored_max sample_vote_two)
   \<and> active_vote (sample_node chratos_test_network 150 40 50000000000) two_elections sample_vote_two
       = Some (True, two_elections_voted, [])
   \<and> (vote_blocking sample_validate sample_stored_max (sample_node chratos_test_network 150 40 50000000000)
         two_elections sample_vote_two = Some (Vote, two_elections_voted, [Notify_vote sample_vote_two])
      \<or> vote_blocking sample_validate sample_stored_max (sample_node chratos_test_network 150 40 50000000000)
         two_elections sample_vote_two = Some (Replay, two_elections_voted, []))
   \<and> \<not> sample_validate (sample_vote 1)
   \<and> \<not> sequence (sample_vote 1) < sequence (sample_vote_max (sample_vote 1))
   \<and> active_vote (sample_node chratos_test_network 150 60 50000000000) sample_active (sample_vote 1)
       = Some (True, sample_active, [])
   \<and> vote_blocking sample_validate sample_vote_max (sample_node chratos_test_network 150 60 50000000000) sample_active
         (sample_vote 1) = Some (Replay, sample_active, [])
   \<and> vote_blocking sample_validate sample_vote_max (sample_node chratos_test_network 150 60 50000000000) no_elections
         (sample_vote 1) = Some (Vote, no_elections, [Notify_vote (sample_vote 1)])"
proof -
  have seq: "sequence (sample_vote_max (sample_vote s)) = s" "sequence (sample_vote s) = s" for s
    by (simp_all add: sample_vote_max_def sample_vote_def)
  have two: "sequence sample_vote_two = 1" "sequence (sample_stored_max sample_vote_two) = 5"
    by (simp_all add: sample_stored_max_def sample_vote_two_def sample_vote_def)
  have stray: "sequence stray_vote = 1"
    by (simp add: stray_vote_def)
  have "\<exists>code. (code = Vote \<or> code = Replay)
      \<and> vote_blocking sample_validate sample_stored_max (sample_node chratos_test_network 150 40 50000000000)
           two_elections sample_vote_two
         = Some (code, two_elections_voted, [] @ (if code = Vote then [Notify_vote sample_vote_two] else [])
             @ (if sequence (sample_stored_max sample_vote_two) > sequence sample_vote_two + 10000
                then [Confirm_send (sample_stored_max sample_vote_two)] else []))"
    using vote_blocking_result
      [where validate = sample_validate and v = sample_vote_two and vote_max = sample_stored_max
         and n = "sample_node chratos_test_network 150 40 50000000000" and a = two_elections
         and replay_l = True and ?a1.0 = two_elections_voted and events = "[]"]
      two_elections_active_vote
    by (simp add: sample_validate_def two)
  then have forwarded:
    "vote_blocking sample_validate sample_stored_max (sample_node chratos_test_network 150 40 50000000000)
         two_elections sample_vote_two = Some (Vote, two_elections_voted, [Notify_vote sample_vote_two])
      \<or> vote_blocking sample_validate sample_stored_max (sample_node chratos_test_network 150 40 50000000000)
         two_elections sample_vote_two = Some (Replay, two_elections_voted, [])"
    by (auto simp add: two)
  show ?thesis
    using vote_blocking_result
      [where validate = sample_validate and v = "sample_vote 0" and vote_max = sample_vote_max
         and n = "sample_node chratos_test_network 150 60 50000000000" and a = sample_active
         and replay_l = True and ?a1.0 = sample_active and events = "[]"]
      vote_blocking_result
      [where validate = sample_validate and v = stray_vote and vote_max = sample_vote_max
         and n = "sample_node chratos_test_network 150 60 50000000000" and a = fresh_active
         and replay_l = True and ?a1.0 = fresh_active and events = "[]"]
      vote_blocking_result
      [where validate = sample_validate and v = "sample_vote 1" and vote_max = sample_vote_max
         and n = "sample_node chratos_test_network 150 60 50000000000" and a = sample_active
         and replay_l = True and ?a1.0 = sample_active and events = "[]"]
      sample_active_vote stray_active_vote two_elections_active_vote forwarded
    by (simp add: sample_validate_def seq two stray)
qed

text \<open>
  Claim C1 as it is written fails on three inputs. It gives \<open>replay\<close> to a valid vote
  that supersedes the stored maximum and that no election accepted: with no election running,
  the code answers \<open>vote\<close> and notifies the observers. It gives \<open>replay\<close> to a valid
  vote that does not supersede the stored maximum: for a vote of sequence 1 when the store
  holds sequence 5, the code answers \<open>vote\<close> and notifies the observers. It gives
  \<open>vote\<close> to a vote that some election accepted: for a vote on two blocks that the
  second election stores and the first election tags as a replay, the code answers
  \<open>replay\<close>.
\<close>

theorem vote_blocking_result_counterexample:
  "\<not> sample_validate (sample_vote 1)
   \<and> sample_vote_max (sample_vote 1) = sample_vote 1
   \<and> roots no_elections = [] \<and> successors no_elections = []
   \<and> vote_blocking sample_validate sample_vote_max (sample_node chratos_test_network 150 60 0) no_elections (sample_vote 1)
       = Some (Vote, no_elections, [Notify_vote (sample_vote 1)])
   \<and> specified_vote_code False True False = Replay
   \<and> sequence (sample_vote 1) = 1 \<and> sequence (sample_stored_max (sample_vote 1)) = 5
   \<and> vote_blocking sample_validate sample_stored_max (sample_node chratos_test_network 150 60 0) no_elections (sample_vote 1)
       = Some (Vote, no_elections, [Notify_vote (sample_vote 1)])
   \<and> specified_vote_code False False False = Replay
   \<and> \<not> sample_validate sample_vote_two
   \<and> sample_vote_max sample_vote_two = sample_vote_two
   \<and> elections two_elections 1 = Some (election_init (sample_node chratos_test_network 150 40 0) second_block)
   \<and> election_vote (sample_node chratos_test_network 150 40 50000000000)
         (election_init (sample_node chratos_test_network 150 40 0) second_block) 7 1 6
       = Some (\<lparr> replay = False, processed = False \<rparr>, second_election_voted, [])
   \<and> map_of (last_votes second_election_voted) 7
       = Some \<lparr> vi_time = 50000000000, vi_sequence = 1, vi_hash = 6 \<rparr>
   \<and> vote_blocking sample_validate sample_vote_max (sample_node chratos_test_network 150 40 50000000000)
         two_elections sample_vote_two
       = Some (Replay, two_elections_voted, [])
   \<and> specified_vote_code False True True = Vote"
proof -
  have none: "vote_blocking sample_validate sample_vote_max (sample_node chratos_test_network 150 60 0) no_elections (sample_vote 1)
       = Some (Vote, no_elections, [Notify_vote (sample_vote 1)])"
    using active_vote_no_elections [of "sample_node chratos_test_network 150 60 0" "sample_vote 1"]
    by (simp add: vote_blocking_def Let_def sample_validate_def sample_vote_max_def sample_vote_def)
  have below: "vote_blocking sample_validate sample_stored_max (sample_node chratos_test_network 150 60 0) no_elections (sample_vote 1)
       = Some (Vote, no_elections, [Notify_vote (sample_vote 1)])"
    using active_vote_no_elections [of "sample_node chratos_test_network 150 60 0" "sample_vote 1"]
    by (simp add: vote_blocking_def Let_def sample_validate_def sample_stored_max_def sample_vote_def)
  have two: "vote_blocking sample_validate sample_vote_max (sample_node chratos_test_network 150 40 50000000000)
         two_elections sample_vote_two
       = Some (Replay, two_elections_voted, [])"
    using two_elections_active_vote
    by (simp add: vote_blocking_def Let_def sample_validate_def sample_vote_max_def sample_vote_two_def)
  show ?thesis
    using none below two second_election_vote
    by (simp add: sample_validate_def sample_vote_max_def sample_stored_max_def sample_vote_def
        sample_vote_two_def two_elections_def second_election_voted_def no_elections_def
        specified_vote_code_def)
qed

section \<open>Properties of the block processor\<close>

lemma queue_deduplicated_init: "queue_deduplicated block_processor_init"
  by (simp add: queue_deduplicated_def block_processor_init_def)

lemma queue_deduplicated_step:
  assumes "queue_deduplicated bp"
  shows "queue_deduplicated (block_processor_step work_validate op bp)"
proof (cases op)
  case (Add b t)
  with assms show ?thesis
    by (auto simp add: queue_deduplicated_def add_def)
next
  case (Force_block b)
  with assms show ?thesis
    by (simp add: queue_deduplicated_def force_def)
next
  case (Next_block t)
  show ?thesis
  proof (cases "forced bp")
    case Nil
    show ?thesis
    proof (cases "bp_blocks bp")
      case Nil
      with \<open>forced bp = []\<close> Next_block assms show ?thesis
        by (simp add: next_block_def)
    next
      case (Cons x xs)
      let ?H = "map (\<lambda>x. hash (fst x)) xs"
      from assms Cons have fresh: "hash (fst x) \<notin> set ?H" and d: "distinct ?H"
        and e: "blocks_hashes bp = insert (hash (fst x)) (set ?H)"
        by (simp_all add: queue_deduplicated_def)
      from fresh e have "set ?H = blocks_hashes bp - {hash (fst x)}"
        by simp
      with d have "queue_deduplicated
          (bp\<lparr> bp_blocks := xs, blocks_hashes := blocks_hashes bp - {hash (fst x)} \<rparr>)"
        by (simp add: queue_deduplicated_def)
      with \<open>forced bp = []\<close> Next_block Cons show ?thesis
        by (simp add: next_block_def)
    qed
  next
    case (Cons x xs)
    with Next_block assms show ?thesis
      by (simp add: queue_deduplicated_def next_block_def)
  qed
qed

lemma queue_deduplicated_fold:
  "queue_deduplicated bp \<Longrightarrow> queue_deduplicated (fold (block_processor_step work_validate) ops bp)"
  by (induction ops arbitrary: bp) (simp_all add: queue_deduplicated_step)

lemma next_block_none: "next_block now_a bp = None \<longleftrightarrow> \<not> have_blocks bp"
  by (simp add: next_block_def have_blocks_def split: list.splits)

lemma process_receive_loop_one:
  assumes "forced bp = []" and "bp_blocks bp = [x]" and "0 < remaining"
  shows "fst (process_receive_loop remaining now_a bp) = [(fst x, snd x, False)]"
proof -
  from assms(3) obtain r where r: "remaining = Suc r" by (cases remaining) auto
  have "process_receive_loop r now_a (bp\<lparr> bp_blocks := [], blocks_hashes := blocks_hashes bp - {hash (fst x)} \<rparr>)
      = ([], bp\<lparr> bp_blocks := [], blocks_hashes := blocks_hashes bp - {hash (fst x)} \<rparr>)"
    using assms(1) by (cases r) (simp_all add: next_block_def)
  with assms(1,2) show ?thesis
    by (simp add: r next_block_def)
qed

lemma process_receive_loop_forced_twice:
  assumes "forced bp = [x, y]" and "bp_blocks bp = []" and "1 < remaining"
  shows "fst (process_receive_loop remaining now_a bp) = [(x, now_a, True), (y, now_a, True)]"
proof -
  from assms(3) obtain r where r: "remaining = Suc (Suc r)"
    by (cases remaining) (auto simp add: gr0_conv_Suc)
  have "process_receive_loop r now_a (bp\<lparr> forced := [] \<rparr>) = ([], bp\<lparr> forced := [] \<rparr>)"
    using assms(2) by (cases r) (simp_all add: next_block_def)
  with assms(1,2) show ?thesis
    by (simp add: r next_block_def)
qed

lemma distinct_count_one:
  "distinct (map f xs) \<Longrightarrow> a \<in> set (map f xs) \<Longrightarrow> length (filter (\<lambda>x. f x = a) xs) = 1"
proof (induction xs)
  case Nil
  then show ?case by simp
next
  case (Cons x xs)
  show ?case
  proof (cases "f x = a")
    case True
    with Cons.prems(1) have "filter (\<lambda>y. f y = a) xs = []"
      by (force simp add: filter_empty_conv image_iff)
    with True show ?thesis by simp
  next
    case False
    with Cons show ?thesis by simp
  qed
qed

lemma add_twice_queued_once:
  assumes "queue_deduplicated bp" and "\<not> work_validate (root b) (block_work b)"
  shows "length (filter (\<lambda>x. hash (fst x) = hash b)
           (bp_blocks (asserted_value (add work_validate b t'
              (asserted_value (add work_validate b t bp)))))) = 1"
proof -
  let ?bp1 = "asserted_value (add work_validate b t bp)"
  have q: "queue_deduplicated ?bp1"
    using queue_deduplicated_step [OF assms(1), of work_validate "Add b t"] by simp
  have m: "hash b \<in> blocks_hashes ?bp1"
    using assms(2) by (simp add: add_def)
  then have "asserted_value (add work_validate b t' ?bp1) = ?bp1"
    by (simp add: add_def)
  moreover from q m have "length (filter (\<lambda>x. hash (fst x) = hash b) (bp_blocks ?bp1)) = 1"
    unfolding queue_deduplicated_def by (intro distinct_count_one) simp_all
  ultimately show ?thesis by simp
qed

text \<open>
  Claim C6. After any sequence of \<open>add\<close>, \<open>force\<close> and turns of the consumer, the hashes of
  the queued blocks are distinct (and are exactly \<open>blocks_hashes\<close>); \<open>add\<close> leaves the
  processor as it is when the hash is already queued, and also when the proof of work does
  not validate, where it runs into its assertion; after two calls of
  \<open>add\<close> in succession for one block the queue holds its hash once, whatever came before;
  adding one block twice to the empty processor gives one block to process, forcing it twice
  gives two.
\<close>

theorem block_processor_queue_deduplicated:
  "distinct (map (\<lambda>x. hash (fst x)) (bp_blocks (block_processor_after work_validate ops)))
   \<and> set (map (\<lambda>x. hash (fst x)) (bp_blocks (block_processor_after work_validate ops)))
       = blocks_hashes (block_processor_after work_validate ops)
   \<and> (hash b \<in> blocks_hashes bp \<longrightarrow> asserted_value (add work_validate b t bp) = bp)
   \<and> (work_validate (root b) (block_work b) \<longrightarrow> add work_validate b t bp = Assertion_failed bp)
   \<and> (\<not> work_validate (root b) (block_work b) \<longrightarrow>
        length (filter (\<lambda>x. hash (fst x) = hash b)
          (bp_blocks (block_processor_after work_validate (ops @ [Add b t, Add b t'])))) = 1)
   \<and> (\<not> work_validate (root b) (block_work b) \<longrightarrow>
        fst (process_receive_many now_a (block_processor_after work_validate [Add b t, Add b t']))
          = [(b, t, False)])
   \<and> fst (process_receive_many now_a (block_processor_after work_validate [Force_block b, Force_block b]))
       = [(b, now_a, True), (b, now_a, True)]"
proof -
  have "queue_deduplicated (block_processor_after work_validate ops)"
    unfolding block_processor_after_def
    using queue_deduplicated_init by (rule queue_deduplicated_fold)
  then have inv: "distinct (map (\<lambda>x. hash (fst x)) (bp_blocks (block_processor_after work_validate ops)))
      \<and> set (map (\<lambda>x. hash (fst x)) (bp_blocks (block_processor_after work_validate ops)))
          = blocks_hashes (block_processor_after work_validate ops)"
    by (simp add: queue_deduplicated_def)
  have refuse: "hash b \<in> blocks_hashes bp \<longrightarrow> asserted_value (add work_validate b t bp) = bp"
    by (simp add: add_def)
  have invalid: "work_validate (root b) (block_work b) \<longrightarrow> add work_validate b t bp = Assertion_failed bp"
    by (simp add: add_def)
  have twice: "\<not> work_validate (root b) (block_work b) \<longrightarrow>
        fst (process_receive_many now_a (block_processor_after work_validate [Add b t, Add b t']))
          = [(b, t, False)]"
  proof
    assume "\<not> work_validate (root b) (block_work b)"
    then have "forced (block_processor_after work_validate [Add b t, Add b t']) = []"
      and "bp_blocks (block_processor_after work_validate [Add b t, Add b t']) = [(b, t)]"
      by (simp_all add: block_processor_after_def block_processor_init_def add_def)
    then show "fst (process_receive_many now_a (block_processor_after work_validate [Add b t, Add b t']))
          = [(b, t, False)]"
      unfolding process_receive_many_def
      using process_receive_loop_one [of _ "(b, t)" 16384 now_a] by simp
  qed
  have forced: "fst (process_receive_many now_a (block_processor_after work_validate [Force_block b, Force_block b]))
       = [(b, now_a, True), (b, now_a, True)]"
  proof -
    have "forced (block_processor_after work_validate [Force_block b, Force_block b]) = [b, b]"
      and "bp_blocks (block_processor_after work_validate [Force_block b, Force_block b]) = []"
      by (simp_all add: block_processor_after_def block_processor_init_def force_def)
    then show ?thesis
      unfolding process_receive_many_def
      using process_receive_loop_forced_twice [of _ b b 16384 now_a] by simp
  qed
  have once: "\<not> work_validate (root b) (block_work b) \<longrightarrow>
        length (filter (\<lambda>x. hash (fst x) = hash b)
          (bp_blocks (block_processor_after work_validate (ops @ [Add b t, Add b t'])))) = 1"
  proof
    assume valid: "\<not> work_validate (root b) (block_work b)"
    have after: "block_processor_after work_validate (ops @ [Add b t, Add b t'])
        = asserted_value (add work_validate b t'
            (asserted_value (add work_validate b t (block_processor_after work_validate ops))))"
      by (simp add: block_processor_after_def)
    have "queue_deduplicated (block_processor_after work_validate ops)"
      unfolding block_processor_after_def
      using queue_deduplicated_init by (rule queue_deduplicated_fold)
    then show "length (filter (\<lambda>x. hash (fst x) = hash b)
          (bp_blocks (block_processor_after work_validate (ops @ [Add b t, Add b t'])))) = 1"
      unfolding after using valid by (rule add_twice_queued_once)
  qed
  from inv refuse invalid once twice forced show ?thesis by blast
qed

theorem block_processor_queue_deduplicated_witness:
  "distinct (map (\<lambda>x. hash (fst x))
      (bp_blocks (block_processor_after (\<lambda>r w. w = 0) [Add (sample_block\<lparr> block_work := 1 \<rparr>) 3])))
   \<and> hash (sample_block\<lparr> block_work := 1 \<rparr>)
       \<in> blocks_hashes (block_processor_after (\<lambda>r w. w = 0) [Add (sample_block\<lparr> block_work := 1 \<rparr>) 3])
   \<and> asserted_value (add (\<lambda>r w. w = 0) (sample_block\<lparr> block_work := 1 \<rparr>) 3
        (block_processor_after (\<lambda>r w. w = 0) [Add (sample_block\<lparr> block_work := 1 \<rparr>) 3]))
       = block_processor_after (\<lambda>r w. w = 0) [Add (sample_block\<lparr> block_work := 1 \<rparr>) 3]
   \<and> add (\<lambda>r w. w = 0) sample_block 4 block_processor_init = Assertion_failed block_processor_init
   \<and> fst (process_receive_many 9
        (block_processor_after (\<lambda>r w. w = 0)
           [Add (sample_block\<lparr> block_work := 1 \<rparr>) 3, Add (sample_block\<lparr> block_work := 1 \<rparr>) 4]))
       = [(sample_block\<lparr> block_work := 1 \<rparr>, 3, False)]"
  using block_processor_queue_deduplicated
    [where work_validate = "\<lambda>r w. w = 0" and ops = "[Add (sample_block\<lparr> block_work := 1 \<rparr>) 3]"
       and b = "sample_block\<lparr> block_work := 1 \<rparr>"
       and bp = "block_processor_after (\<lambda>r w. w = 0) [Add (sample_block\<lparr> block_work := 1 \<rparr>) 3]"
       and t = 3 and t' = 4 and now_a = 9]
    block_processor_queue_deduplicated
    [where work_validate = "\<lambda>r w. w = 0" and ops = "[]" and b = sample_block
       and bp = block_processor_init and t = 4 and t' = 4 and now_a = 9]
  by (simp add: block_processor_after_def block_processor_init_def add_def sample_block_def)

section \<open>Properties of the gap cache\<close>

lemma gap_cache_vote_hash_events:
  "snd (gap_cache_vote_hash n voter h cache) =
     (case find (\<lambda>i. gap_hash i = h) cache of
        None \<Rightarrow> []
      | Some existing \<Rightarrow>
          if voter \<notin> set (voters existing)
             \<and> voters_tally n (voters existing @ [voter])
                 > (online_stake n div 256) * ucast (bootstrap_fraction_numerator n)
          then [Bootstrap_check
                  (if chratos_network n = chratos_test_network then now n + 5000000
                   else now n + 5 * 1000000000) h]
          else [])"
proof (induction cache)
  case Nil
  show ?case by simp
next
  case (Cons a cache)
  show ?case
  proof (cases "gap_hash a = h")
    case True
    then show ?thesis
      by (simp add: voters_insert_def bootstrap_threshold_def Let_def)
  next
    case False
    obtain rest1 events where r: "gap_cache_vote_hash n voter h cache = (rest1, events)"
      by (cases "gap_cache_vote_hash n voter h cache") auto
    with Cons.IH False show ?thesis by simp
  qed
qed

text \<open>
  Claim C9, as the code has it. For a hash of a vote, the delayed bootstrap check is scheduled
  exactly when the cache has an entry for the hash, the voter is new to the entry, and the
  128-bit sum of the ledger weights of the entry's voters, the new one included, exceeds the
  threshold, which is the online stake divided by 256 and then multiplied by the numerator.
\<close>

theorem gap_cache_vote_schedules:
  "snd (gap_cache_vote_hash n voter h cache) =
     (case find (\<lambda>i. gap_hash i = h) cache of
        None \<Rightarrow> []
      | Some existing \<Rightarrow>
          if voter \<notin> set (voters existing)
             \<and> voters_tally n (voters existing @ [voter])
                 > (online_stake n div 256) * ucast (bootstrap_fraction_numerator n)
          then [Bootstrap_check
                  (if chratos_network n = chratos_test_network then now n + 5000000
                   else now n + 5 * 1000000000) h]
          else [])
   \<and> gap_cache_vote n \<lparr> account = voter, sequence = s, vote_blocks = [Vote_hash h] \<rparr> cache
       = gap_cache_vote_hash n voter h cache"
  using gap_cache_vote_hash_events [of n voter h cache]
  by (simp add: gap_cache_vote_def vote_block_hash_def split: prod.splits)

theorem gap_cache_vote_schedules_witness:
  "snd (gap_cache_vote_hash (sample_node chratos_live_network 512 7 0) 7 5
          [\<lparr> arrival = 0, gap_hash = 5, voters = [] \<rparr>])
     = [Bootstrap_check 5000000000 5]
   \<and> voters_tally (sample_node chratos_live_network 512 7 0) [7] = 7
   \<and> (512 div 256) * (3 :: uint128_t) = 6
   \<and> snd (gap_cache_vote_hash (sample_node chratos_live_network 512 6 0) 7 5
          [\<lparr> arrival = 0, gap_hash = 5, voters = [] \<rparr>]) = []"
  using gap_cache_vote_schedules
    [where n = "sample_node chratos_live_network 512 7 0" and voter = 7 and h = 5
       and cache = "[\<lparr> arrival = 0, gap_hash = 5, voters = [] \<rparr>]"]
    gap_cache_vote_schedules
    [where n = "sample_node chratos_live_network 512 6 0" and voter = 7 and h = 5
       and cache = "[\<lparr> arrival = 0, gap_hash = 5, voters = [] \<rparr>]"]
  by (simp add: sample_node_def voters_tally_def online_stake_def)

text \<open>
  Claim C9 as it is written, with the threshold online stake times numerator, divided by 256:
  with an online stake of 200 and a numerator of 3 that is 2, and a first voter of weight 1
  has the check scheduled, because the code's threshold is (200 / 256) * 3 = 0.
\<close>

theorem gap_cache_vote_schedules_counterexample:
  "gap_cache_vote (sample_node chratos_live_network 200 1 0) (sample_vote 1)
      [\<lparr> arrival = 0, gap_hash = 5, voters = [] \<rparr>]
     = ([\<lparr> arrival = 0, gap_hash = 5, voters = [7] \<rparr>], [Bootstrap_check 5000000000 5])
   \<and> unat (online_stake (sample_node chratos_live_network 200 1 0)) = 200
   \<and> unat (bootstrap_fraction_numerator (sample_node chratos_live_network 200 1 0)) = 3
   \<and> unat (ledger_weight (sample_node chratos_live_network 200 1 0) 7) = 1
   \<and> \<not> (1 :: nat) > 200 * 3 div 256"
  by (simp add: gap_cache_vote_def vote_block_hash_def sample_vote_def sample_node_def
      voters_insert_def voters_tally_def bootstrap_threshold_def online_stake_def)

section \<open>Properties of the syn cookies\<close>

lemma small_count_succ:
  fixes count :: "32 word"
  assumes "unat count < max_peers_per_ip"
  shows "count + 1 > 0" and "count + 1 - 1 = count" and "unat (count + 1) = unat count + 1"
proof -
  from assms have "unat count < 10" by (simp add: max_peers_per_ip_def)
  then have *: "unat (count + 1) = unat count + 1"
    by (simp add: unat_word_ariths)
  then show "unat (count + 1) = unat count + 1" .
  from * have "unat (count + 1) \<noteq> 0" by simp
  then show "count + 1 > 0" by (simp add: word_greater_zero_iff unat_eq_zero)
  show "count + 1 - 1 = count" by simp
qed

text \<open>
  Claim C7. \<open>assign_syn_cookie\<close> returns nothing exactly when the counter of the
  endpoint's address has reached \<open>max_peers_per_ip\<close> or the endpoint already has a
  cookie; otherwise it returns the challenge, stores it with the time and adds one to the
  counter. When \<open>validate_syn_cookie\<close> then receives a signature that verifies over
  that challenge, it reports success, the cookie is gone and the counter is what it was
  before the assignment.
\<close>

theorem syn_cookie_assign_validate:
  "(fst (assign_syn_cookie query now_a ep c) = None
      \<longleftrightarrow> \<not> unat (ip_cookies c (address ep)) < max_peers_per_ip \<or> syn_cookies c ep \<noteq> None)
   \<and> (fst (assign_syn_cookie query now_a ep c) \<noteq> None \<longrightarrow>
        fst (assign_syn_cookie query now_a ep c) = Some query
        \<and> syn_cookies (snd (assign_syn_cookie query now_a ep c)) ep
            = Some \<lparr> cookie = query, created_at = now_a \<rparr>
        \<and> unat (ip_cookies (snd (assign_syn_cookie query now_a ep c)) (address ep))
            = unat (ip_cookies c (address ep)) + 1)
   \<and> (fst (assign_syn_cookie query now_a ep c) \<noteq> None \<and> \<not> validate_message node_id query sig \<longrightarrow>
        (\<exists>c2. validate_syn_cookie validate_message ep node_id sig (snd (assign_syn_cookie query now_a ep c))
                = Passed (False, c2)
           \<and> syn_cookies c2 ep = None
           \<and> ip_cookies c2 (address ep) = ip_cookies c (address ep)))"
proof -
  let ?count = "ip_cookies c (address ep)"
  show ?thesis
  proof (cases "unat ?count < max_peers_per_ip \<and> syn_cookies c ep = None")
    case False
    then show ?thesis
      by (auto simp add: assign_syn_cookie_def Let_def)
  next
    case True
    note s = small_count_succ [of ?count]
    from True have a: "assign_syn_cookie query now_a ep c =
        (Some query,
         c\<lparr> syn_cookies := (syn_cookies c)(ep \<mapsto> \<lparr> cookie = query, created_at = now_a \<rparr>),
             syn_cookies_per_ip := (syn_cookies_per_ip c)(address ep \<mapsto> ?count + 1) \<rparr>)"
      by (simp add: assign_syn_cookie_def Let_def)
    from True s show ?thesis
      unfolding a
      by (simp add: validate_syn_cookie_def Let_def ip_cookies_def)
  qed
qed

theorem syn_cookie_assign_validate_witness:
  "fst (assign_syn_cookie 42 3 (sample_endpoint 1) (peer_container_init (sample_endpoint 0))) = Some 42
   \<and> \<not> sample_validate_message 9 42 42
   \<and> fst (asserted_value (validate_syn_cookie sample_validate_message (sample_endpoint 1) 9 42
        (snd (assign_syn_cookie 42 3 (sample_endpoint 1) (peer_container_init (sample_endpoint 0))))))
       = False
   \<and> syn_cookies (snd (asserted_value (validate_syn_cookie sample_validate_message (sample_endpoint 1) 9 42
        (snd (assign_syn_cookie 42 3 (sample_endpoint 1) (peer_container_init (sample_endpoint 0)))))))
        (sample_endpoint 1) = None
   \<and> ip_cookies (snd (asserted_value (validate_syn_cookie sample_validate_message (sample_endpoint 1) 9 42
        (snd (assign_syn_cookie 42 3 (sample_endpoint 1) (peer_container_init (sample_endpoint 0)))))))
        (address (sample_endpoint 1)) = 0
   \<and> fst (assign_syn_cookie 42 3 (sample_endpoint 1)
        ((peer_container_init (sample_endpoint 0))
           \<lparr> syn_cookies_per_ip := [address (sample_endpoint 1) \<mapsto> 10] \<rparr>)) = None"
  using syn_cookie_assign_validate
    [where query = 42 and now_a = 3 and ep = "sample_endpoint 1"
       and c = "peer_container_init (sample_endpoint 0)"
       and validate_message = sample_validate_message and node_id = 9 and sig = 42]
    syn_cookie_assign_validate
    [where query = 42 and now_a = 3 and ep = "sample_endpoint 1"
       and c = "(peer_container_init (sample_endpoint 0))
           \<lparr> syn_cookies_per_ip := [address (sample_endpoint 1) \<mapsto> 10] \<rparr>"
       and validate_message = sample_validate_message and node_id = 9 and sig = 42]
  by (auto simp add: peer_container_init_def ip_cookies_def max_peers_per_ip_def
      sample_validate_message_def)

section \<open>Properties of the peer container\<close>

lemma ip_peers_map:
  assumes "\<And>i. ip_address (f i) = ip_address i"
  shows "ip_peers (c\<lparr> peers := map f (peers c) \<rparr>) ip = ip_peers c ip"
proof -
  have "filter (\<lambda>i. ip_address i = ip) (map f xs) = map f (filter (\<lambda>i. ip_address i = ip) xs)" for xs
    by (induction xs) (simp_all add: assms)
  then show ?thesis by (simp add: ip_peers_def)
qed

lemma length_filter_filter_le: "length (filter P (filter Q xs)) \<le> length (filter P xs)"
  by (induction xs) auto

lemma ip_peers_legacy [simp]:
  "ip_peers (c\<lparr> legacy_peers := l \<rparr>) ip = ip_peers c ip"
  by (simp add: ip_peers_def)

lemma ip_peers_append:
  "ip_peers (c\<lparr> peers := peers c @ [new_peer_information ep v t] \<rparr>) ip =
     (if address ep = ip then Suc (ip_peers c ip) else ip_peers c ip)"
  by (simp add: ip_peers_def new_peer_information_def)

text \<open>The ways a call of \<open>insert\<close> can end.\<close>

lemma insert_peer_cases:
  obtains
    (unchanged) "snd (insert_peer network k now_a ep v c) = (c, [])"
  | (touched) "known_peer c ep" "fst (insert_peer network k now_a ep v c)"
      "snd (insert_peer network k now_a ep v c) =
         (c\<lparr> peers := map (\<lambda>i. if peer_endpoint i = ep then i\<lparr> last_contact := now_a \<rparr> else i) (peers c) \<rparr>, [])"
  | (rejected) l where "\<not> known_peer c ep" "fst (insert_peer network k now_a ep v c)"
      "snd (insert_peer network k now_a ep v c) = (c\<lparr> legacy_peers := l \<rparr>, [])"
  | (inserted) l where "\<not> known_peer c ep" "\<not> fst (insert_peer network k now_a ep v c)"
      "network \<noteq> chratos_test_network \<longrightarrow> ip_peers c (address ep) < max_peers_per_ip"
      "snd (insert_peer network k now_a ep v c) =
         (c\<lparr> legacy_peers := l, peers := peers c @ [new_peer_information ep v now_a] \<rparr>, [ep])"
proof (cases "not_a_peer network c ep False \<or> \<not> v \<ge> protocol_version_min k")
  case True
  then show ?thesis
    by (intro unchanged) (auto simp add: insert_peer_def Let_def)
next
  case ok: False
  show ?thesis
  proof (cases "known_peer c ep")
    case True
    with ok show ?thesis
      by (intro touched) (auto simp add: insert_peer_def Let_def known_peer_def)
  next
    case unknown: False
    show ?thesis
    proof (cases "fst (insert_peer network k now_a ep v c)")
      case True
      with ok unknown show ?thesis
        by (intro rejected [of "if v < node_id_version k \<and> legacy_peers c < max_legacy_peers k
                                  then legacy_peers c + 1 else legacy_peers c"])
          (auto simp add: insert_peer_def Let_def known_peer_def split: if_splits)
    next
      case False
      with ok unknown show ?thesis
        by (intro inserted [of "if v < node_id_version k then legacy_peers c + 1 else legacy_peers c"])
          (auto simp add: insert_peer_def Let_def known_peer_def not_le split: if_splits)
    qed
  qed
qed

lemma peers_capped_insert:
  assumes "peers_capped c" and "network \<noteq> chratos_test_network"
  shows "peers_capped (fst (snd (insert_peer network k now_a ep v c)))"
proof (cases rule: insert_peer_cases [of network k now_a ep v c])
  case unchanged
  with assms show ?thesis by simp
next
  case touched
  with assms(1) show ?thesis
    by (simp add: peers_capped_def ip_peers_map)
next
  case (rejected l)
  with assms(1) show ?thesis
    by (simp add: peers_capped_def)
next
  case (inserted l)
  have "ip_peers (c\<lparr> legacy_peers := l, peers := peers c @ [new_peer_information ep v now_a] \<rparr>) ip
      \<le> max_peers_per_ip" for ip
    using assms inserted(3) ip_peers_append [of "c\<lparr> legacy_peers := l \<rparr>" ep v now_a ip]
    by (auto simp add: peers_capped_def)
  with inserted(4) show ?thesis
    by (simp add: peers_capped_def)
qed

lemma peers_capped_step:
  assumes "peers_capped c" and "network \<noteq> chratos_test_network"
  shows "peers_capped (peer_step network k op c)"
proof (cases op)
  case (Insert ep v t)
  with assms show ?thesis by (simp add: peers_capped_insert)
next
  case (Contacted ep v t)
  with assms peers_capped_insert [OF assms, of k t ep v] show ?thesis
    by (auto simp add: contacted_def split: prod.splits)
next
  case (Purge_list t cutoff)
  have "ip_peers (snd (asserted_value (purge_list k t cutoff c))) ip \<le> ip_peers c ip" for ip
  proof -
    have "ip_peers (snd (asserted_value (purge_list k t cutoff c))) ip
        = length (filter (\<lambda>i. ip_address i = ip) (filter (\<lambda>i. \<not> last_contact i < cutoff) (peers c)))"
      using ip_peers_map [of "\<lambda>i. i\<lparr> last_attempt := t \<rparr>"
          "c\<lparr> legacy_peers := legacy_peers c
                   - length (filter (\<lambda>i. last_contact i < cutoff \<and> network_version i < node_id_version k) (peers c)),
               peers := filter (\<lambda>i. \<not> last_contact i < cutoff) (peers c) \<rparr>" ip]
      by (simp add: purge_list_def Let_def ip_peers_def)
    also have "\<dots> \<le> length (filter (\<lambda>i. ip_address i = ip) (peers c))"
      by (rule length_filter_filter_le)
    finally show ?thesis by (simp add: ip_peers_def)
  qed
  with assms(1) Purge_list show ?thesis
    by (auto simp add: peers_capped_def intro: order_trans)
next
  case (Rep_response ep a w t)
  with assms(1) show ?thesis
    by (simp add: rep_response_def peers_capped_def ip_peers_map)
next
  case (Rep_request ep t)
  with assms(1) show ?thesis
    by (simp add: rep_request_def peers_capped_def ip_peers_map)
qed

lemma peers_capped_after:
  assumes "network \<noteq> chratos_test_network"
  shows "peers_capped (peers_after network k self_a ops)"
proof -
  have "peers_capped c \<Longrightarrow> peers_capped (fold (peer_step network k) ops c)" for c
    by (induction ops arbitrary: c) (simp_all add: peers_capped_step assms)
  moreover have "peers_capped (peer_container_init self_a)"
    by (simp add: peers_capped_def ip_peers_def peer_container_init_def)
  ultimately show ?thesis by (simp add: peers_after_def)
qed

lemma not_a_peer_self:
  "self c' = self c \<Longrightarrow> not_a_peer network c' ep b = not_a_peer network c ep b"
  by (simp add: not_a_peer_def)

text \<open>A modern, valid, unknown endpoint is inserted unless its address is full.\<close>

lemma insert_peer_modern:
  assumes "\<not> not_a_peer network c ep False" and "v \<ge> protocol_version_min k"
    and "\<not> v < node_id_version k" and "\<not> known_peer c ep"
  shows "insert_peer network k now_a ep v c =
     (if network \<noteq> chratos_test_network \<and> ip_peers c (address ep) \<ge> max_peers_per_ip
      then (True, c, [])
      else (False, c\<lparr> peers := peers c @ [new_peer_information ep v now_a] \<rparr>, [ep]))"
  using assms by (simp add: insert_peer_def Let_def known_peer_def)

lemma insert_all_results:
  assumes "v \<ge> protocol_version_min k" and "\<not> v < node_id_version k"
  shows "distinct eps \<Longrightarrow>
     (\<forall>ep \<in> set eps. address ep = ip \<and> \<not> not_a_peer network c ep False \<and> \<not> known_peer c ep) \<Longrightarrow>
     fst (insert_all network k now_a v eps c)
       = map (\<lambda>j. network \<noteq> chratos_test_network \<and> \<not> ip_peers c ip + j < max_peers_per_ip)
           [0..<length eps]
     \<and> (network = chratos_test_network \<longrightarrow>
           ip_peers (snd (insert_all network k now_a v eps c)) ip = ip_peers c ip + length eps)"
proof (induction eps arbitrary: c)
  case Nil
  show ?case by simp
next
  case (Cons ep eps)
  from Cons.prems have ep: "address ep = ip" "\<not> not_a_peer network c ep False" "\<not> known_peer c ep"
    by simp_all
  note ins = insert_peer_modern [OF ep(2) assms ep(3), of now_a]
  show ?case
  proof (cases "network \<noteq> chratos_test_network \<and> ip_peers c ip \<ge> max_peers_per_ip")
    case True
    with ins ep(1) have i: "insert_peer network k now_a ep v c = (True, c, [])" by simp
    from Cons.prems have "distinct eps"
      and "\<forall>ep \<in> set eps. address ep = ip \<and> \<not> not_a_peer network c ep False \<and> \<not> known_peer c ep"
      by simp_all
    from Cons.IH [OF this] have ih: "fst (insert_all network k now_a v eps c)
          = map (\<lambda>j. network \<noteq> chratos_test_network \<and> \<not> ip_peers c ip + j < max_peers_per_ip)
              [0..<length eps]"
      by simp
    obtain rs c2 where r: "insert_all network k now_a v eps c = (rs, c2)"
      by (cases "insert_all network k now_a v eps c") auto
    then have "insert_all network k now_a v (ep # eps) c = (True # rs, c2)"
      by (simp add: i)
    with r ih True show ?thesis
      by (simp add: map_upt_Suc del: upt_Suc)
  next
    case False
    let ?c1 = "c\<lparr> peers := peers c @ [new_peer_information ep v now_a] \<rparr>"
    from False ins ep(1) have i: "insert_peer network k now_a ep v c = (False, ?c1, [ep])" by auto
    have count: "ip_peers ?c1 ip = Suc (ip_peers c ip)"
      using ip_peers_append [of c ep v now_a ip] ep(1) by simp
    have np: "not_a_peer network ?c1 e False = not_a_peer network c e False" for e
      by (rule not_a_peer_self) simp
    have kp: "known_peer ?c1 e = (known_peer c e \<or> e = ep)" for e
      by (auto simp add: known_peer_def new_peer_information_def)
    from Cons.prems have "distinct eps"
      and "\<forall>e \<in> set eps. address e = ip \<and> \<not> not_a_peer network ?c1 e False \<and> \<not> known_peer ?c1 e"
      by (auto simp add: np kp)
    from Cons.IH [OF this] have ih: "fst (insert_all network k now_a v eps ?c1)
          = map (\<lambda>j. network \<noteq> chratos_test_network \<and> \<not> ip_peers ?c1 ip + j < max_peers_per_ip)
              [0..<length eps]"
      and ih2: "network = chratos_test_network \<longrightarrow>
          ip_peers (snd (insert_all network k now_a v eps ?c1)) ip = ip_peers ?c1 ip + length eps"
      by simp_all
    obtain rs c2 where r: "insert_all network k now_a v eps ?c1 = (rs, c2)"
      by (cases "insert_all network k now_a v eps ?c1") auto
    then have "insert_all network k now_a v (ep # eps) c = (False # rs, c2)"
      by (simp add: i)
    with r ih ih2 False show ?thesis
      by (auto simp add: count map_upt_Suc simp del: upt_Suc)
  qed
qed

lemma sample_endpoint_valid:
  assumes "p \<noteq> 0" and "self c = sample_endpoint 0"
  shows "\<not> not_a_peer network c (sample_endpoint p) False"
  using assms
  by (simp add: not_a_peer_def reserved_address_def in_range_def mapped_from_v4_bytes_def
      sample_endpoint_def Let_def)

text \<open>
  Claim C8, as the code has it. On a network other than the test network, after any sequence
  of calls of the peer container no address has more than \<open>max_peers_per_ip\<close> peers; and
  of 11 distinct endpoints of one address, all of them valid peers that the container does not
  know, presented with a protocol version that is supported and not legacy to a container
  without peers of that address, the first \<open>max_peers_per_ip\<close> are inserted and the 11th
  is rejected.
\<close>

theorem peers_per_ip_capped:
  "(network \<noteq> chratos_test_network \<longrightarrow>
      ip_peers (peers_after network k self_a ops) ip \<le> max_peers_per_ip)
   \<and> (network \<noteq> chratos_test_network \<and> length eps = 11 \<and> distinct eps
        \<and> (\<forall>ep \<in> set eps. address ep = ip \<and> \<not> not_a_peer network c ep False \<and> \<not> known_peer c ep)
        \<and> ip_peers c ip = 0 \<and> v \<ge> protocol_version_min k \<and> \<not> v < node_id_version k
      \<longrightarrow> fst (insert_all network k now_a v eps c) = replicate max_peers_per_ip False @ [True])"
proof -
  have cap: "network \<noteq> chratos_test_network \<longrightarrow>
      ip_peers (peers_after network k self_a ops) ip \<le> max_peers_per_ip"
    using peers_capped_after [of network k self_a ops] by (simp add: peers_capped_def)
  have eleven: "network \<noteq> chratos_test_network \<and> length eps = 11 \<and> distinct eps
        \<and> (\<forall>ep \<in> set eps. address ep = ip \<and> \<not> not_a_peer network c ep False \<and> \<not> known_peer c ep)
        \<and> ip_peers c ip = 0 \<and> v \<ge> protocol_version_min k \<and> \<not> v < node_id_version k
      \<longrightarrow> fst (insert_all network k now_a v eps c) = replicate max_peers_per_ip False @ [True]"
  proof
    assume a: "network \<noteq> chratos_test_network \<and> length eps = 11 \<and> distinct eps
        \<and> (\<forall>ep \<in> set eps. address ep = ip \<and> \<not> not_a_peer network c ep False \<and> \<not> known_peer c ep)
        \<and> ip_peers c ip = 0 \<and> v \<ge> protocol_version_min k \<and> \<not> v < node_id_version k"
    then have "fst (insert_all network k now_a v eps c)
        = map (\<lambda>j. network \<noteq> chratos_test_network \<and> \<not> ip_peers c ip + j < max_peers_per_ip)
            [0..<length eps]"
      using insert_all_results [of k v eps ip network c now_a] by blast
    also have "\<dots> = map (\<lambda>j. \<not> j < 10) [0..<11]"
      using a by (simp add: max_peers_per_ip_def)
    also have "\<dots> = replicate max_peers_per_ip False @ [True]"
      by (simp add: max_peers_per_ip_def upt_rec numeral_eq_Suc)
    finally show "fst (insert_all network k now_a v eps c) = replicate max_peers_per_ip False @ [True]" .
  qed
  from cap eleven show ?thesis by (rule conjI)
qed

lemma sample_endpoints:
  "distinct [sample_endpoint 1, sample_endpoint 2, sample_endpoint 3, sample_endpoint 4, sample_endpoint 5,
          sample_endpoint 6, sample_endpoint 7, sample_endpoint 8, sample_endpoint 9, sample_endpoint 10,
          sample_endpoint 11]"
  "\<forall>ep \<in> set [sample_endpoint 1, sample_endpoint 2, sample_endpoint 3, sample_endpoint 4, sample_endpoint 5,
          sample_endpoint 6, sample_endpoint 7, sample_endpoint 8, sample_endpoint 9, sample_endpoint 10,
          sample_endpoint 11].
     address ep = 0x20010db9000000000000000000000001
     \<and> \<not> not_a_peer network (peer_container_init (sample_endpoint 0)) ep False
     \<and> \<not> known_peer (peer_container_init (sample_endpoint 0)) ep"
proof -
  show "distinct [sample_endpoint 1, sample_endpoint 2, sample_endpoint 3, sample_endpoint 4, sample_endpoint 5,
          sample_endpoint 6, sample_endpoint 7, sample_endpoint 8, sample_endpoint 9, sample_endpoint 10,
          sample_endpoint 11]"
    by (simp add: sample_endpoint_def)
  have "\<not> not_a_peer network (peer_container_init (sample_endpoint 0)) (sample_endpoint p) False"
    if "p \<noteq> 0" for p
    using that by (intro sample_endpoint_valid) (simp_all add: peer_container_init_def)
  moreover have "address (sample_endpoint p) = 0x20010db9000000000000000000000001" for p
    by (simp add: sample_endpoint_def)
  moreover have "\<not> known_peer (peer_container_init (sample_endpoint 0)) ep" for ep
    by (simp add: known_peer_def peer_container_init_def)
  ultimately show "\<forall>ep \<in> set [sample_endpoint 1, sample_endpoint 2, sample_endpoint 3, sample_endpoint 4, sample_endpoint 5,
          sample_endpoint 6, sample_endpoint 7, sample_endpoint 8, sample_endpoint 9, sample_endpoint 10,
          sample_endpoint 11].
     address ep = 0x20010db9000000000000000000000001
     \<and> \<not> not_a_peer network (peer_container_init (sample_endpoint 0)) ep False
     \<and> \<not> known_peer (peer_container_init (sample_endpoint 0)) ep"
    by simp
qed

theorem peers_per_ip_capped_witness:
  "chratos_live_network \<noteq> chratos_test_network
   \<and> ip_peers (peers_after chratos_live_network sample_constants (sample_endpoint 0)
          [Insert (sample_endpoint 1) 12 0]) 0x20010db9000000000000000000000001 \<le> max_peers_per_ip
   \<and> fst (insert_all chratos_live_network sample_constants 0 12
        [sample_endpoint 1, sample_endpoint 2, sample_endpoint 3, sample_endpoint 4, sample_endpoint 5,
          sample_endpoint 6, sample_endpoint 7, sample_endpoint 8, sample_endpoint 9, sample_endpoint 10,
          sample_endpoint 11]
        (peer_container_init (sample_endpoint 0)))
       = replicate max_peers_per_ip False @ [True]"
proof -
  note t = peers_per_ip_capped
    [where network = chratos_live_network and k = sample_constants and self_a = "sample_endpoint 0"
       and ops = "[Insert (sample_endpoint 1) 12 0]" and ip = "0x20010db9000000000000000000000001"
       and eps = "[sample_endpoint 1, sample_endpoint 2, sample_endpoint 3, sample_endpoint 4, sample_endpoint 5,
          sample_endpoint 6, sample_endpoint 7, sample_endpoint 8, sample_endpoint 9, sample_endpoint 10,
          sample_endpoint 11]"
       and c = "peer_container_init (sample_endpoint 0)" and v = 12 and now_a = 0]
  have a: "chratos_live_network \<noteq> chratos_test_network" by simp
  have b: "length [sample_endpoint 1, sample_endpoint 2, sample_endpoint 3, sample_endpoint 4, sample_endpoint 5,
          sample_endpoint 6, sample_endpoint 7, sample_endpoint 8, sample_endpoint 9, sample_endpoint 10,
          sample_endpoint 11] = 11"
    by simp
  have e: "ip_peers (peer_container_init (sample_endpoint 0)) 0x20010db9000000000000000000000001 = 0"
    by (simp add: ip_peers_def peer_container_init_def)
  have f: "12 \<ge> protocol_version_min sample_constants" "\<not> 12 < node_id_version sample_constants"
    by (simp_all add: sample_constants_def)
  from t a b e f sample_endpoints(1) sample_endpoints(2) [of chratos_live_network]
  show ?thesis by blast
qed

lemma fold_insert_all:
  "fold (peer_step network k) (map (\<lambda>ep. Insert ep v t) eps) c = snd (insert_all network k t v eps c)"
  by (induction eps arbitrary: c) (simp_all split: prod.splits)

text \<open>
  Claim C8 as it is written fails on the test network, where \<open>insert\<close> does not count the
  peers of an address: 11 endpoints of one address are all inserted.
\<close>

theorem peers_per_ip_capped_counterexample:
  "ip_peers (peers_after chratos_test_network sample_constants (sample_endpoint 0)
        [Insert (sample_endpoint 1) 12 0,
          Insert (sample_endpoint 2) 12 0,
          Insert (sample_endpoint 3) 12 0,
          Insert (sample_endpoint 4) 12 0,
          Insert (sample_endpoint 5) 12 0,
          Insert (sample_endpoint 6) 12 0,
          Insert (sample_endpoint 7) 12 0,
          Insert (sample_endpoint 8) 12 0,
          Insert (sample_endpoint 9) 12 0,
          Insert (sample_endpoint 10) 12 0,
          Insert (sample_endpoint 11) 12 0]) 0x20010db9000000000000000000000001 = 11
   \<and> fst (insert_all chratos_test_network sample_constants 0 12
        [sample_endpoint 1, sample_endpoint 2, sample_endpoint 3, sample_endpoint 4, sample_endpoint 5,
          sample_endpoint 6, sample_endpoint 7, sample_endpoint 8, sample_endpoint 9, sample_endpoint 10,
          sample_endpoint 11]
        (peer_container_init (sample_endpoint 0)))
       = replicate 11 False
   \<and> \<not> (11 :: nat) \<le> max_peers_per_ip"
proof -
  let ?eps = "[sample_endpoint 1, sample_endpoint 2, sample_endpoint 3, sample_endpoint 4, sample_endpoint 5,
          sample_endpoint 6, sample_endpoint 7, sample_endpoint 8, sample_endpoint 9, sample_endpoint 10,
          sample_endpoint 11]"
  let ?c = "peer_container_init (sample_endpoint 0)"
  have r: "fst (insert_all chratos_test_network sample_constants 0 12 ?eps ?c)
        = map (\<lambda>j. chratos_test_network \<noteq> chratos_test_network
                  \<and> \<not> ip_peers ?c 0x20010db9000000000000000000000001 + j < max_peers_per_ip)
            [0..<length ?eps]
      \<and> (chratos_test_network = chratos_test_network \<longrightarrow>
           ip_peers (snd (insert_all chratos_test_network sample_constants 0 12 ?eps ?c))
             0x20010db9000000000000000000000001
           = ip_peers ?c 0x20010db9000000000000000000000001 + length ?eps)"
  proof -
    have f: "12 \<ge> protocol_version_min sample_constants" "\<not> 12 < node_id_version sample_constants"
      by (simp_all add: sample_constants_def)
    show ?thesis
      using f sample_endpoints(1) sample_endpoints(2) [of chratos_test_network]
      by (rule insert_all_results)
  qed
  have "[Insert (sample_endpoint 1) 12 0,
          Insert (sample_endpoint 2) 12 0,
          Insert (sample_endpoint 3) 12 0,
          Insert (sample_endpoint 4) 12 0,
          Insert (sample_endpoint 5) 12 0,
          Insert (sample_endpoint 6) 12 0,
          Insert (sample_endpoint 7) 12 0,
          Insert (sample_endpoint 8) 12 0,
          Insert (sample_endpoint 9) 12 0,
          Insert (sample_endpoint 10) 12 0,
          Insert (sample_endpoint 11) 12 0]
      = map (\<lambda>ep. Insert ep 12 0) ?eps"
    by simp
  then have "peers_after chratos_test_network sample_constants (sample_endpoint 0)
        [Insert (sample_endpoint 1) 12 0,
          Insert (sample_endpoint 2) 12 0,
          Insert (sample_endpoint 3) 12 0,
          Insert (sample_endpoint 4) 12 0,
          Insert (sample_endpoint 5) 12 0,
          Insert (sample_endpoint 6) 12 0,
          Insert (sample_endpoint 7) 12 0,
          Insert (sample_endpoint 8) 12 0,
          Insert (sample_endpoint 9) 12 0,
          Insert (sample_endpoint 10) 12 0,
          Insert (sample_endpoint 11) 12 0]
      = snd (insert_all chratos_test_network sample_constants 0 12 ?eps ?c)"
    unfolding peers_after_def by (simp only: fold_insert_all)
  with r show ?thesis
    by (simp add: ip_peers_def peer_container_init_def max_peers_per_ip_def upt_rec numeral_eq_Suc)
qed

end
